theory Spec2Isabelle
  imports Complex_Main "HOL-Library.Word" "HOL-Library.Log_Nat"
begin

unbundle bit_operations_syntax

section \<open>The hash table of libqb (src/lib/hashtable.c)\<close>

text \<open>
  The embedding is sequential: one thread runs one operation at a time, so every
  \<^verbatim>\<open>pthread_mutex_lock\<close> succeeds at once and the lock calls leave no trace in the state.
  Callbacks are observers: an invocation is recorded in a log and does not re-enter the
  map.

  Pointers. A \<^verbatim>\<open>void *\<close> is a number, \<open>NULL\<close> is 0. A \<^verbatim>\<open>struct hash_node *\<close> is an
  address; the nodes that are allocated are exactly the nodes linked in some bucket chain
  (\<^verbatim>\<open>hashtable_node_destroy\<close> unlinks and frees together), so a chain is the list of its
  nodes in link order, each with its address. A cursor that still holds the address of a
  freed node finds no node under it. Keys are borrowed C strings, compared by
  \<^verbatim>\<open>strcmp\<close>: the model keeps their bytes.
\<close>

type_synonym addr = nat
type_synonym ptr = nat

definition NULL :: ptr where
  "NULL = 0"

subsection \<open>Constants of the headers\<close>

text \<open>Modelled from the spec: the event bits of qbmap.h, which is not among the sources
  (\<open>INSERTED=1, DELETED=2, REPLACED=4, FREE=8\<close>). The code only tests and copies them.\<close>

definition QB_MAP_NOTIFY_INSERTED :: "32 word" where
  "QB_MAP_NOTIFY_INSERTED = 1"

definition QB_MAP_NOTIFY_DELETED :: "32 word" where
  "QB_MAP_NOTIFY_DELETED = 2"

definition QB_MAP_NOTIFY_REPLACED :: "32 word" where
  "QB_MAP_NOTIFY_REPLACED = 4"

definition QB_MAP_NOTIFY_FREE :: "32 word" where
  "QB_MAP_NOTIFY_FREE = 8"

text \<open>Modelled from the spec: the POSIX error numbers of errno.h (\<open>ENOENT\<close>, \<open>ENOMEM\<close>,
  \<open>EEXIST\<close>), with their Linux values.\<close>

definition ENOENT :: int where
  "ENOENT = 2"

definition ENOMEM :: int where
  "ENOMEM = 12"

definition EEXIST :: int where
  "EEXIST = 17"

definition FNV_32_PRIME :: "32 word" where
  "FNV_32_PRIME = 0x01000193"

subsection \<open>Data\<close>

text \<open>Modelled from the spec: \<^verbatim>\<open>struct qb_map_notifier\<close> of map_int.h, a registration
  \<open>(events, callback, user_data)\<close>; the callback is a function pointer, kept as a number.\<close>

record qb_map_notifier =
  events :: "32 word"
  callback :: nat
  user_data :: ptr

text \<open>\<^verbatim>\<open>struct hash_node\<close>; the field \<^verbatim>\<open>list\<close> is the position in the chain.\<close>

record hash_node =
  key :: string
  node_value :: ptr
  refcount :: "32 word"
  node_notifier_head :: "qb_map_notifier list"

type_synonym chain = "(addr \<times> hash_node) list"

text \<open>One call \<^verbatim>\<open>tn->callback(tn->events, key, old_value, value, tn->user_data)\<close>.\<close>

record notify_call =
  call_fn :: nat
  call_events :: "32 word"
  call_key :: string
  call_old_value :: ptr
  call_value :: ptr
  call_user_data :: ptr

text \<open>
  The state: the fields of \<^verbatim>\<open>struct hash_table\<close> (\<open>count\<close> is a \<^verbatim>\<open>size_t\<close> of 64 bits,
  \<open>hash_buckets\<close> the chains), and the process around it: \<open>heap_top\<close>, the next address
  \<^verbatim>\<open>calloc\<close> hands out for a node; \<open>allocs\<close>, the outcomes of the coming allocation
  calls (\<open>False\<close> is a failure, the empty list means that every call succeeds);
  \<open>errno\<close>; and \<open>trace\<close>, the log of callback invocations.
\<close>

record hash_table =
  count :: "64 word"
  order :: "32 word"
  hash_buckets_len :: "32 word"
  notifier_head :: "qb_map_notifier list"
  hash_buckets :: "chain list"
  heap_top :: addr
  allocs :: "bool list"
  errno :: int
  trace :: "notify_call list"

text \<open>\<^verbatim>\<open>struct hashtable_iter\<close>: the pinned node, if any, and its bucket.\<close>

record hashtable_iter =
  node :: "addr option"
  bucket :: "32 word"

subsection \<open>Allocation\<close>

text \<open>\<^verbatim>\<open>malloc\<close> and \<^verbatim>\<open>calloc\<close>: the next outcome of the plan; a failure sets \<open>errno\<close>
  as POSIX has it.\<close>

definition malloc :: "hash_table \<Rightarrow> bool \<times> hash_table" where
  "malloc t =
     (case allocs t of
        [] \<Rightarrow> (True, t)
      | ok # rest \<Rightarrow>
          (ok, if ok then t\<lparr>allocs := rest\<rparr> else t\<lparr>allocs := rest, errno := ENOMEM\<rparr>))"

subsection \<open>Hashing\<close>

fun fnv_loop :: "32 word \<Rightarrow> string \<Rightarrow> 32 word" where
  "fnv_loop hash_result [] = hash_result"
| "fnv_loop hash_result (c # cd) = fnv_loop ((hash_result XOR of_char c) * FNV_32_PRIME) cd"

definition hash_fnv :: "string \<Rightarrow> 32 word \<Rightarrow> 32 word" where
  "hash_fnv val ord =
     (let hash_result = fnv_loop 0x811c9dc5 val
      in (drop_bit (unat ord) hash_result XOR hash_result) AND (push_bit (unat ord) 1 - 1))"

definition qb_hash_string :: "string \<Rightarrow> 32 word \<Rightarrow> 32 word" where
  "qb_hash_string k ord = hash_fnv k ord"

subsection \<open>Chains\<close>

text \<open>The scan \<^verbatim>\<open>qb_list_for_each\<close> with \<^verbatim>\<open>strcmp(hash_node->key, key) == 0\<close>, which
  \<^verbatim>\<open>hashtable_lookup\<close>, \<^verbatim>\<open>hashtable_lookup_value\<close>, \<^verbatim>\<open>hashtable_rm_with_hash\<close> and
  \<^verbatim>\<open>hashtable_put\<close> each run: the first node of the chain with that key.\<close>

fun chain_find :: "string \<Rightarrow> chain \<Rightarrow> (addr \<times> hash_node) option" where
  "chain_find k [] = None"
| "chain_find k ((a, n) # rest) = (if key n = k then Some (a, n) else chain_find k rest)"

text \<open>A store through a node pointer, and \<^verbatim>\<open>qb_list_del\<close> of a node.\<close>

definition chain_store :: "addr \<Rightarrow> hash_node \<Rightarrow> chain \<Rightarrow> chain" where
  "chain_store a n c = map (\<lambda>(a', n'). if a' = a then (a', n) else (a', n')) c"

definition chain_del :: "addr \<Rightarrow> chain \<Rightarrow> chain" where
  "chain_del a c = filter (\<lambda>(a', n'). a' \<noteq> a) c"

definition set_bucket :: "nat \<Rightarrow> chain \<Rightarrow> hash_table \<Rightarrow> hash_table" where
  "set_bucket b c t = t\<lparr>hash_buckets := (hash_buckets t)[b := c]\<rparr>"

subsection \<open>Lookup\<close>

definition hashtable_lookup :: "hash_table \<Rightarrow> string \<Rightarrow> (addr \<times> hash_node) option" where
  "hashtable_lookup t k =
     (let hash_entry = qb_hash_string k (order t)
      in chain_find k (hash_buckets t ! unat hash_entry))"

definition hashtable_lookup_value :: "hash_table \<Rightarrow> string \<Rightarrow> ptr" where
  "hashtable_lookup_value t k =
     (let hash_entry = qb_hash_string k (order t)
      in case chain_find k (hash_buckets t ! unat hash_entry) of
           Some (a, n) \<Rightarrow> node_value n
         | None \<Rightarrow> NULL)"

definition hashtable_get :: "hash_table \<Rightarrow> string \<Rightarrow> ptr" where
  "hashtable_get t k = hashtable_lookup_value t k"

definition hashtable_count_get :: "hash_table \<Rightarrow> 64 word" where
  "hashtable_count_get t = count t"

subsection \<open>Notification\<close>

definition add_notify_event ::
  "qb_map_notifier list \<Rightarrow> 32 word \<Rightarrow> qb_map_notifier \<Rightarrow> hash_table
   \<Rightarrow> qb_map_notifier list \<times> hash_table" where
  "add_notify_event head event tn t =
     (case malloc t of
        (False, t') \<Rightarrow> (head, t')
      | (True, t') \<Rightarrow> (head @ [tn\<lparr>events := event\<rparr>], t'))"

text \<open>The two loops of \<^verbatim>\<open>copy_notify_list\<close>: over the notifiers of the node, then over
  those of the table.\<close>

fun copy_node_notifiers ::
  "qb_map_notifier list \<Rightarrow> 32 word \<Rightarrow> qb_map_notifier list \<Rightarrow> hash_table
   \<Rightarrow> qb_map_notifier list \<times> hash_table" where
  "copy_node_notifiers [] event new_head t = (new_head, t)"
| "copy_node_notifiers (tn # rest) event new_head t =
     (if events tn AND event \<noteq> 0
      then (case add_notify_event new_head event tn t of
              (h, t') \<Rightarrow> copy_node_notifiers rest event h t')
      else copy_node_notifiers rest event new_head t)"

fun copy_table_notifiers ::
  "qb_map_notifier list \<Rightarrow> 32 word \<Rightarrow> qb_map_notifier list \<Rightarrow> hash_table
   \<Rightarrow> qb_map_notifier list \<times> hash_table" where
  "copy_table_notifiers [] event new_head t = (new_head, t)"
| "copy_table_notifiers (tn # rest) event new_head t =
     (case (if events tn AND event \<noteq> 0
            then add_notify_event new_head event tn t
            else (new_head, t)) of
        (h1, t1) \<Rightarrow>
          (case (if (event AND QB_MAP_NOTIFY_DELETED \<noteq> 0 \<or> event AND QB_MAP_NOTIFY_REPLACED \<noteq> 0)
                    \<and> events tn AND QB_MAP_NOTIFY_FREE \<noteq> 0
                 then add_notify_event h1 QB_MAP_NOTIFY_FREE tn t1
                 else (h1, t1)) of
             (h2, t2) \<Rightarrow> copy_table_notifiers rest event h2 t2))"

text \<open>The result \<open>None\<close> is the \<open>NULL\<close> head of a failed allocation.\<close>

definition copy_notify_list ::
  "hash_table \<Rightarrow> hash_node \<Rightarrow> 32 word \<Rightarrow> qb_map_notifier list option \<times> hash_table" where
  "copy_notify_list t n event =
     (case malloc t of
        (False, t') \<Rightarrow> (None, t')
      | (True, t') \<Rightarrow>
          (case copy_node_notifiers (node_notifier_head n) event [] t' of
             (h1, t1) \<Rightarrow>
               (case copy_table_notifiers (notifier_head t1) event h1 t1 of
                  (h2, t2) \<Rightarrow> (Some h2, t2))))"

definition invoke :: "string \<Rightarrow> ptr \<Rightarrow> ptr \<Rightarrow> qb_map_notifier \<Rightarrow> notify_call" where
  "invoke k old_value val tn =
     \<lparr>call_fn = callback tn, call_events = events tn, call_key = k,
      call_old_value = old_value, call_value = val, call_user_data = user_data tn\<rparr>"

definition hashtable_notify ::
  "qb_map_notifier list option \<Rightarrow> string \<Rightarrow> ptr \<Rightarrow> ptr \<Rightarrow> hash_table \<Rightarrow> hash_table" where
  "hashtable_notify head k old_value val t =
     (case head of
        None \<Rightarrow> t
      | Some l \<Rightarrow> t\<lparr>trace := trace t @ map (invoke k old_value val) l\<rparr>)"

subsection \<open>Destruction and dereference of a node\<close>

text \<open>
  The C functions take the node pointer alone. Every caller holds the node it passes
  from a scan of one bucket's chain; the model passes that bucket's index \<open>b\<close> with the
  address and the contents of the node.
\<close>

definition hashtable_node_destroy :: "hash_table \<Rightarrow> nat \<Rightarrow> addr \<Rightarrow> hash_node \<Rightarrow> hash_table" where
  "hashtable_node_destroy t b a n =
     (case copy_notify_list t n QB_MAP_NOTIFY_DELETED of
        (nl, t1) \<Rightarrow>
          (let t2 = hashtable_notify nl (key n) (node_value n) NULL t1
           in set_bucket b (chain_del a (hash_buckets t2 ! b)) t2))"

definition hashtable_node_deref :: "hash_table \<Rightarrow> nat \<Rightarrow> addr \<Rightarrow> hash_node \<Rightarrow> hash_table" where
  "hashtable_node_deref t b a n =
     (let n' = n\<lparr>refcount := refcount n - 1\<rparr>;
          t' = set_bucket b (chain_store a n' (hash_buckets t ! b)) t
      in if refcount n' > 0 then t' else hashtable_node_destroy t' b a n')"

subsection \<open>Removal\<close>

text \<open>The result is \<^verbatim>\<open>QB_TRUE\<close> or \<^verbatim>\<open>QB_FALSE\<close>, as a truth value.\<close>

definition hashtable_rm_with_hash :: "hash_table \<Rightarrow> string \<Rightarrow> 32 word \<Rightarrow> bool \<times> hash_table" where
  "hashtable_rm_with_hash t k hash_entry =
     (case chain_find k (hash_buckets t ! unat hash_entry) of
        Some (a, n) \<Rightarrow>
          (let t1 = hashtable_node_deref t (unat hash_entry) a n
           in (True, t1\<lparr>count := count t1 - 1\<rparr>))
      | None \<Rightarrow> (False, t))"

definition hashtable_rm :: "hash_table \<Rightarrow> string \<Rightarrow> bool \<times> hash_table" where
  "hashtable_rm t k =
     (let hash_entry = qb_hash_string k (order t)
      in hashtable_rm_with_hash t k hash_entry)"

subsection \<open>Insertion and replacement\<close>

definition hashtable_put :: "hash_table \<Rightarrow> string \<Rightarrow> ptr \<Rightarrow> hash_table" where
  "hashtable_put t k val =
     (let hash_entry = unat (qb_hash_string k (order t))
      in case chain_find k (hash_buckets t ! hash_entry) of
           None \<Rightarrow>
             (case malloc t of
                (False, t1) \<Rightarrow> t1\<lparr>errno := ENOMEM\<rparr>
              | (True, t1) \<Rightarrow>
                  (let a = heap_top t1;
                       t2 = t1\<lparr>heap_top := a + 1, count := count t1 + 1\<rparr>;
                       hash_node = \<lparr>key = k, node_value = val, refcount = 1,
                                    node_notifier_head = []\<rparr>;
                       t3 = set_bucket hash_entry (hash_buckets t2 ! hash_entry @ [(a, hash_node)]) t2
                   in case copy_notify_list t3 hash_node QB_MAP_NOTIFY_INSERTED of
                        (nl, t4) \<Rightarrow> hashtable_notify nl k NULL val t4))
         | Some (a, n) \<Rightarrow>
             (let old_k = key n;
                  old_v = node_value n;
                  hash_node = n\<lparr>key := k, node_value := val\<rparr>;
                  t1 = set_bucket hash_entry (chain_store a hash_node (hash_buckets t ! hash_entry)) t
              in case copy_notify_list t1 hash_node QB_MAP_NOTIFY_REPLACED of
                   (nl, t2) \<Rightarrow> hashtable_notify nl old_k old_v val t2))"

subsection \<open>Registration of a notifier\<close>

text \<open>The loop of \<^verbatim>\<open>hashtable_notify_add\<close> over the list; \<open>True\<close> is its
  \<^verbatim>\<open>return -EEXIST\<close>.\<close>

fun notify_exists :: "32 word \<Rightarrow> nat \<Rightarrow> ptr \<Rightarrow> qb_map_notifier list \<Rightarrow> bool" where
  "notify_exists ev fn ud [] = False"
| "notify_exists ev fn ud (f # rest) =
     (if ev AND QB_MAP_NOTIFY_FREE \<noteq> 0 \<and> events f = ev then True
      else if events f = ev \<and> user_data f = ud \<and> callback f = fn then True
      else notify_exists ev fn ud rest)"

text \<open>\<open>head\<close>: the list of the node with that key, or of the table when the key is
  \<open>NULL\<close> (\<open>None\<close>).\<close>

datatype head_ref = Table_Head | Node_Head nat addr hash_node

definition notify_head :: "hash_table \<Rightarrow> string option \<Rightarrow> head_ref option" where
  "notify_head t k =
     (case k of
        Some k' \<Rightarrow>
          (case hashtable_lookup t k' of
             Some (a, n) \<Rightarrow> Some (Node_Head (unat (qb_hash_string k' (order t))) a n)
           | None \<Rightarrow> None)
      | None \<Rightarrow> Some Table_Head)"

fun head_list :: "hash_table \<Rightarrow> head_ref \<Rightarrow> qb_map_notifier list" where
  "head_list t Table_Head = notifier_head t"
| "head_list t (Node_Head b a n) = node_notifier_head n"

fun head_store :: "head_ref \<Rightarrow> qb_map_notifier list \<Rightarrow> hash_table \<Rightarrow> hash_table" where
  "head_store Table_Head l t = t\<lparr>notifier_head := l\<rparr>"
| "head_store (Node_Head b a n) l t =
     set_bucket b (chain_store a (n\<lparr>node_notifier_head := l\<rparr>) (hash_buckets t ! b)) t"

definition hashtable_notify_add ::
  "hash_table \<Rightarrow> string option \<Rightarrow> nat \<Rightarrow> 32 word \<Rightarrow> ptr \<Rightarrow> int \<times> hash_table" where
  "hashtable_notify_add t k fn ev ud =
     (case notify_head t k of
        None \<Rightarrow> (- ENOENT, t)
      | Some head \<Rightarrow>
          (let add_to_tail = (ev AND QB_MAP_NOTIFY_FREE \<noteq> 0)
           in if notify_exists ev fn ud (head_list t head) then (- EEXIST, t)
              else (case malloc t of
                      (False, t1) \<Rightarrow> (- errno t1, t1)
                    | (True, t1) \<Rightarrow>
                        (let f = \<lparr>events = ev, callback = fn, user_data = ud\<rparr>
                         in (0, head_store head
                                  (if add_to_tail then head_list t1 head @ [f]
                                   else f # head_list t1 head) t1)))))"

subsection \<open>Iteration\<close>

definition hashtable_iter_create ::
  "hash_table \<Rightarrow> string option \<Rightarrow> hashtable_iter option \<times> hash_table" where
  "hashtable_iter_create t prefix =
     (case malloc t of
        (False, t') \<Rightarrow> (None, t')
      | (True, t') \<Rightarrow> (Some \<lparr>node = None, bucket = 0\<rparr>, t'))"

text \<open>\<^verbatim>\<open>qb_list_for_each_entry_from\<close> with the test \<^verbatim>\<open>hash_node->refcount > 0\<close>.\<close>

fun first_live :: "chain \<Rightarrow> (addr \<times> hash_node) option" where
  "first_live [] = None"
| "first_live ((a, n) # rest) = (if refcount n > 0 then Some (a, n) else first_live rest)"

text \<open>\<^verbatim>\<open>qb_list_first_entry(&hi->node->list, ...)\<close> and on: the nodes linked behind the
  node at address \<open>a\<close>; \<open>None\<close> when the chain links no node at that address (the
  pointer dangles, and the C code reads freed memory).\<close>

fun chain_after :: "addr \<Rightarrow> chain \<Rightarrow> chain option" where
  "chain_after a [] = None"
| "chain_after a ((a', n) # rest) = (if a' = a then Some rest else chain_after a rest)"

text \<open>The \<^verbatim>\<open>for\<close> loop of \<^verbatim>\<open>hashtable_iter_next\<close>, up to the node it finds: \<open>Some None\<close>
  when it runs out of buckets, \<open>None\<close> when it follows a dangling pointer.\<close>

function iter_scan ::
  "hash_table \<Rightarrow> addr option \<Rightarrow> nat \<Rightarrow> bool \<Rightarrow> (nat \<times> addr \<times> hash_node) option option" where
  "iter_scan t hn b cont =
     (if b < unat (hash_buckets_len t)
      then (case (if cont
                  then (case hn of
                          Some a \<Rightarrow> chain_after a (hash_buckets t ! b)
                        | None \<Rightarrow> None)
                  else Some (hash_buckets t ! b)) of
              None \<Rightarrow> None
            | Some rest \<Rightarrow>
                (case first_live rest of
                   Some (a, n) \<Rightarrow> Some (Some (b, a, n))
                 | None \<Rightarrow> iter_scan t hn (b + 1) False))
      else Some None)"
  by pat_completeness auto
termination
  by (relation "measure (\<lambda>(t, hn, b, cont). unat (hash_buckets_len t) - b)") auto

declare iter_scan.simps [simp del]

text \<open>
  The result is \<open>None\<close> when the cursor dangles; otherwise the key and the value of the
  node found (\<open>None\<close> for the \<open>NULL\<close> return, which leaves \<^verbatim>\<open>*value\<close> alone), the cursor
  and the state. The pinned node of the cursor is linked in the bucket the cursor held
  on entry.
\<close>

definition hashtable_iter_next ::
  "hash_table \<Rightarrow> hashtable_iter
   \<Rightarrow> ((string \<times> ptr) option \<times> hashtable_iter \<times> hash_table) option" where
  "hashtable_iter_next t hi =
     (case iter_scan t (node hi) (unat (bucket hi)) (node hi \<noteq> None) of
        None \<Rightarrow> None
      | Some found \<Rightarrow>
          (let t1 = (case found of
                       None \<Rightarrow> t
                     | Some (b, a, n) \<Rightarrow>
                         set_bucket b
                           (chain_store a (n\<lparr>refcount := refcount n + 1\<rparr>) (hash_buckets t ! b)) t);
               hi1 = (case found of
                        None \<Rightarrow> hi
                      | Some (b, a, n) \<Rightarrow> hi\<lparr>bucket := of_nat b\<rparr>);
               t2 = (case node hi of
                       None \<Rightarrow> Some t1
                     | Some old \<Rightarrow>
                         (case map_of (hash_buckets t1 ! unat (bucket hi)) old of
                            None \<Rightarrow> None
                          | Some n_old \<Rightarrow>
                              Some (hashtable_node_deref t1 (unat (bucket hi)) old n_old)))
           in case t2 of
                None \<Rightarrow> None
              | Some t3 \<Rightarrow>
                  (case found of
                     None \<Rightarrow> Some (None, hi1, t3)
                   | Some (b, a, n) \<Rightarrow>
                       Some (Some (key n, node_value n), hi1\<lparr>node := Some a\<rparr>, t3))))"

subsection \<open>Creation\<close>

text \<open>The loop \<^verbatim>\<open>for (i = 0; n; i++) n >>= 1\<close> on the \<^verbatim>\<open>int32_t n\<close>, the shift being
  arithmetic; \<open>None\<close> when it does not end.\<close>

partial_function (option) order_loop :: "32 word \<Rightarrow> 32 word \<Rightarrow> 32 word option" where
  "order_loop i n = (if n = 0 then Some i else order_loop (i + 1) (signed_drop_bit 1 n))"

declare order_loop.simps [code]

text \<open>Modelled from the spec: the macro \<^verbatim>\<open>QB_MAX\<close> of qbdefs.h, the greater of two
  \<^verbatim>\<open>int32_t\<close>.\<close>

definition QB_MAX :: "32 word \<Rightarrow> 32 word \<Rightarrow> 32 word" where
  "QB_MAX a b = (if word_sless b a then a else b)"

text \<open>
  \<open>Created\<close>: the table, in a process whose coming allocations are \<open>plan\<close>, with no
  callback invoked yet and node addresses from 1. \<open>Returned_NULL\<close>: \<^verbatim>\<open>calloc\<close> failed.
  \<open>No_Return\<close>: the first loop does not end. \<open>Shift_Overflow\<close>: \<^verbatim>\<open>1 << order\<close> leaves
  \<^verbatim>\<open>int\<close>, which C leaves undefined.
\<close>

datatype create_result = Created hash_table | Returned_NULL | No_Return | Shift_Overflow

definition qb_hashtable_create :: "bool list \<Rightarrow> 64 word \<Rightarrow> create_result" where
  "qb_hashtable_create plan max_size =
     (case order_loop 0 (ucast max_size) of
        None \<Rightarrow> No_Return
      | Some i \<Rightarrow>
          (let ord = QB_MAX i 3
           in if 31 \<le> unat ord then Shift_Overflow
              else if plan \<noteq> [] \<and> \<not> hd plan then Returned_NULL
              else Created
                     \<lparr>count = 0, order = ord, hash_buckets_len = push_bit (unat ord) 1,
                      notifier_head = [],
                      hash_buckets = replicate (unat (push_bit (unat ord) 1 :: 32 word)) [],
                      heap_top = 1, allocs = tl plan, errno = 0, trace = []\<rparr>))"

section \<open>Notions for the statements\<close>

subsection \<open>The invariant\<close>

text \<open>The invariant of a table: \<open>2 ^ order\<close> buckets; every node linked in the bucket of
  its key's hash, under an address that was handed out; no key twice in a chain; no
  address twice in the table. \<^verbatim>\<open>qb_hashtable_create\<close> establishes it and the operations
  keep it (lemmas \<open>wf_create\<close>, \<open>wf_put\<close>, \<open>wf_rm\<close>, \<open>wf_notify_add\<close>, \<open>wf_iter_next\<close>).\<close>

definition wf_table :: "hash_table \<Rightarrow> bool" where
  "wf_table t \<longleftrightarrow>
     unat (order t) < 31 \<and>
     hash_buckets_len t = push_bit (unat (order t)) 1 \<and>
     length (hash_buckets t) = unat (hash_buckets_len t) \<and>
     (\<forall>b<length (hash_buckets t). \<forall>(a, n)\<in>set (hash_buckets t ! b).
        unat (qb_hash_string (key n) (order t)) = b \<and> a < heap_top t) \<and>
     (\<forall>b<length (hash_buckets t). distinct (map (\<lambda>(a, n). key n) (hash_buckets t ! b))) \<and>
     distinct (map fst (concat (hash_buckets t)))"

text \<open>Every linked entry has a positive reference count.\<close>

definition all_live :: "hash_table \<Rightarrow> bool" where
  "all_live t \<longleftrightarrow> list_all (list_all (\<lambda>(a, n). 0 < refcount n)) (hash_buckets t)"

subsection \<open>Snapshots and traces\<close>

text \<open>The snapshot \<^verbatim>\<open>copy_notify_list\<close> builds when every allocation succeeds (lemma
  \<open>copy_notify_list_ok\<close>): the copies of the node's notifiers, then those of the table's.\<close>

definition node_copies :: "32 word \<Rightarrow> qb_map_notifier list \<Rightarrow> qb_map_notifier list" where
  "node_copies event l =
     map (\<lambda>tn. tn\<lparr>events := event\<rparr>) (filter (\<lambda>tn. events tn AND event \<noteq> 0) l)"

definition table_copy :: "32 word \<Rightarrow> qb_map_notifier \<Rightarrow> qb_map_notifier list" where
  "table_copy event tn =
     (if events tn AND event \<noteq> 0 then [tn\<lparr>events := event\<rparr>] else []) @
     (if (event AND QB_MAP_NOTIFY_DELETED \<noteq> 0 \<or> event AND QB_MAP_NOTIFY_REPLACED \<noteq> 0)
         \<and> events tn AND QB_MAP_NOTIFY_FREE \<noteq> 0
      then [tn\<lparr>events := QB_MAP_NOTIFY_FREE\<rparr>] else [])"

definition snapshot :: "hash_table \<Rightarrow> hash_node \<Rightarrow> 32 word \<Rightarrow> qb_map_notifier list" where
  "snapshot t n event =
     node_copies event (node_notifier_head n) @ concat (map (table_copy event) (notifier_head t))"

text \<open>What an allocation leaves alone: all of the state but \<open>allocs\<close> and \<open>errno\<close>.\<close>

definition same_table :: "hash_table \<Rightarrow> hash_table \<Rightarrow> bool" where
  "same_table t t' \<longleftrightarrow>
     count t' = count t \<and> order t' = order t \<and> hash_buckets_len t' = hash_buckets_len t \<and>
     notifier_head t' = notifier_head t \<and> hash_buckets t' = hash_buckets t \<and>
     heap_top t' = heap_top t \<and> trace t' = trace t"

text \<open>The calls of a trace that an observer receives: those to its callback with its
  user data.\<close>

definition observer_calls :: "qb_map_notifier \<Rightarrow> notify_call list \<Rightarrow> notify_call list" where
  "observer_calls obs cs =
     filter (\<lambda>c. call_fn c = callback obs \<and> call_user_data c = user_data obs) cs"

subsection \<open>A full iteration\<close>

text \<open>
  The caller's loop \<^verbatim>\<open>while ((k = iter_next(it, &v)) != NULL) ...\<close>: the keys returned
  up to the \<open>NULL\<close>, with the cursor and the state at the end. The loop has fuel:
  \<open>None\<close> is a loop that has not met the \<open>NULL\<close> within \<open>fuel\<close> calls, or a cursor that
  dangles.
\<close>

fun iter_collect ::
  "nat \<Rightarrow> hash_table \<Rightarrow> hashtable_iter \<Rightarrow> (string list \<times> hashtable_iter \<times> hash_table) option" where
  "iter_collect 0 t hi = None"
| "iter_collect (Suc fuel) t hi =
     (case hashtable_iter_next t hi of
        None \<Rightarrow> None
      | Some (None, hi', t') \<Rightarrow> Some ([], hi', t')
      | Some (Some (k, v), hi', t') \<Rightarrow>
          (case iter_collect fuel t' hi' of
             None \<Rightarrow> None
           | Some (ks, end_state) \<Rightarrow> Some (k # ks, end_state)))"

text \<open>The nodes of the buckets from \<open>b\<close> on, in bucket and link order, each with the index
  of its bucket; and the table with one more reference to the node at \<open>a\<close>.\<close>

definition entries_from :: "chain list \<Rightarrow> nat \<Rightarrow> (nat \<times> addr \<times> hash_node) list" where
  "entries_from bs b = concat (map (\<lambda>i. map (Pair i) (bs ! i)) [b..<length bs])"

definition pinned :: "hash_table \<Rightarrow> addr \<Rightarrow> hash_node \<Rightarrow> hash_table" where
  "pinned t a n =
     t\<lparr>hash_buckets := map (chain_store a (n\<lparr>refcount := refcount n + 1\<rparr>)) (hash_buckets t)\<rparr>"

subsection \<open>Concrete tables and observers\<close>

text \<open>The table \<^verbatim>\<open>qb_hashtable_create(1)\<close> returns, and that table once
  \<^verbatim>\<open>put("a", 0x1)\<close> has run, with \<open>r\<close> references to the entry.\<close>

definition ht_empty :: hash_table where
  "ht_empty =
     \<lparr>count = 0, order = 3, hash_buckets_len = 8, notifier_head = [],
      hash_buckets = replicate 8 [], heap_top = 1, allocs = [], errno = 0, trace = []\<rparr>"

definition node_a :: "32 word \<Rightarrow> hash_node" where
  "node_a r = \<lparr>key = ''a'', node_value = 1, refcount = r, node_notifier_head = []\<rparr>"

definition ht_a :: "32 word \<Rightarrow> hash_table" where
  "ht_a r =
     \<lparr>count = 1, order = 3, hash_buckets_len = 8, notifier_head = [],
      hash_buckets = [[], [(1, node_a r)], [], [], [], [], [], []],
      heap_top = 2, allocs = [], errno = 0, trace = []\<rparr>"

text \<open>A table with three entries, two of them in one chain: \<^verbatim>\<open>"a"\<close> and \<^verbatim>\<open>"b"\<close> hash to
  bucket 1, \<^verbatim>\<open>"c"\<close> to bucket 0.\<close>

definition ht_abc :: hash_table where
  "ht_abc = hashtable_put (hashtable_put (hashtable_put ht_empty ''a'' 1) ''b'' 2) ''c'' 3"

text \<open>Observers of the table: that of scenario S6, registered for \<open>DELETED | FREE\<close>; that
  of scenario S2, registered for \<open>INSERTED | REPLACED\<close>; and three more, for \<open>FREE\<close>
  alone, for \<open>INSERTED\<close> alone and for \<open>INSERTED | DELETED\<close>.\<close>

definition obs_del_free :: qb_map_notifier where
  "obs_del_free =
     \<lparr>events = QB_MAP_NOTIFY_DELETED OR QB_MAP_NOTIFY_FREE, callback = 1, user_data = 0\<rparr>"

definition obs_ins_rep :: qb_map_notifier where
  "obs_ins_rep =
     \<lparr>events = QB_MAP_NOTIFY_INSERTED OR QB_MAP_NOTIFY_REPLACED, callback = 1, user_data = 0\<rparr>"

definition obs_free :: qb_map_notifier where
  "obs_free = \<lparr>events = QB_MAP_NOTIFY_FREE, callback = 1, user_data = 0\<rparr>"

definition obs_ins :: qb_map_notifier where
  "obs_ins = \<lparr>events = QB_MAP_NOTIFY_INSERTED, callback = 1, user_data = 0\<rparr>"

definition obs_ins_del :: qb_map_notifier where
  "obs_ins_del =
     \<lparr>events = QB_MAP_NOTIFY_INSERTED OR QB_MAP_NOTIFY_DELETED, callback = 1, user_data = 0\<rparr>"

text \<open>The empty table and the table of \<^verbatim>\<open>put("a", 0x1)\<close>, each with the observer of S6
  in the notifier list of the table.\<close>

definition ht_observed :: hash_table where
  "ht_observed = ht_empty\<lparr>notifier_head := [obs_del_free]\<rparr>"

definition ht_a_observed :: "32 word \<Rightarrow> hash_table" where
  "ht_a_observed r = ht_a r\<lparr>notifier_head := [obs_del_free]\<rparr>"

section \<open>Auxiliary facts\<close>

subsection \<open>Allocation, snapshots and traces\<close>

text \<open>Allocations that succeed build the snapshot and leave the table alone.\<close>

lemma malloc_ok: "allocs t = [] \<Longrightarrow> malloc t = (True, t)"
  by (simp add: malloc_def)

lemma malloc_fail:
  "allocs t = False # rest \<Longrightarrow> malloc t = (False, t\<lparr>allocs := rest, errno := ENOMEM\<rparr>)"
  by (simp add: malloc_def)

lemma add_notify_event_ok:
  "allocs t = [] \<Longrightarrow> add_notify_event h ev tn t = (h @ [tn\<lparr>events := ev\<rparr>], t)"
  by (simp add: add_notify_event_def malloc_ok)

lemma copy_node_notifiers_ok:
  "allocs t = [] \<Longrightarrow> copy_node_notifiers l ev h t = (h @ node_copies ev l, t)"
  by (induction l arbitrary: h) (simp_all add: node_copies_def add_notify_event_ok)

lemma copy_table_notifiers_ok:
  "allocs t = [] \<Longrightarrow> copy_table_notifiers l ev h t = (h @ concat (map (table_copy ev) l), t)"
  by (induction l arbitrary: h) (simp_all add: table_copy_def add_notify_event_ok)

lemma copy_notify_list_ok:
  "allocs t = [] \<Longrightarrow> copy_notify_list t n ev = (Some (snapshot t n ev), t)"
  by (simp add: copy_notify_list_def malloc_ok copy_node_notifiers_ok copy_table_notifiers_ok
      snapshot_def)

lemma same_table_refl [simp]: "same_table t t"
  by (simp add: same_table_def)

lemma same_table_trans: "same_table t t1 \<Longrightarrow> same_table t1 t2 \<Longrightarrow> same_table t t2"
  by (simp add: same_table_def)

lemma malloc_frame: "same_table t (snd (malloc t))"
  by (simp add: malloc_def same_table_def split: list.splits)

lemma add_notify_event_frame: "same_table t (snd (add_notify_event h ev tn t))"
  using malloc_frame [of t]
  by (auto simp: add_notify_event_def split: prod.splits bool.splits)

lemma copy_node_notifiers_frame: "same_table t (snd (copy_node_notifiers l ev h t))"
proof (induction l arbitrary: h t)
  case Nil
  show ?case by simp
next
  case (Cons tn l)
  show ?case
  proof (cases "events tn AND ev \<noteq> 0")
    case True
    obtain h1 t1 where a: "add_notify_event h ev tn t = (h1, t1)"
      by (cases "add_notify_event h ev tn t")
    with add_notify_event_frame [of t h ev tn] have "same_table t t1" by simp
    with Cons.IH [of t1 h1] have "same_table t (snd (copy_node_notifiers l ev h1 t1))"
      by (rule same_table_trans [rotated])
    with True a show ?thesis by simp
  next
    case False
    with Cons.IH [of t h] show ?thesis by simp
  qed
qed

lemma copy_table_notifiers_frame: "same_table t (snd (copy_table_notifiers l ev h t))"
proof (induction l arbitrary: h t)
  case Nil
  show ?case by simp
next
  case (Cons tn l)
  let ?s1 = "if events tn AND ev \<noteq> 0 then add_notify_event h ev tn t else (h, t)"
  obtain h1 t1 where s1: "?s1 = (h1, t1)" by (cases ?s1)
  have t1: "same_table t t1"
    using s1 add_notify_event_frame [of t h ev tn] by (auto split: if_splits)
  let ?s2 = "if (ev AND QB_MAP_NOTIFY_DELETED \<noteq> 0 \<or> ev AND QB_MAP_NOTIFY_REPLACED \<noteq> 0)
                \<and> events tn AND QB_MAP_NOTIFY_FREE \<noteq> 0
             then add_notify_event h1 QB_MAP_NOTIFY_FREE tn t1 else (h1, t1)"
  obtain h2 t2 where s2: "?s2 = (h2, t2)" by (cases ?s2)
  have "same_table t1 t2"
    using s2 add_notify_event_frame [of t1 h1 QB_MAP_NOTIFY_FREE tn] by (auto split: if_splits)
  with t1 have "same_table t t2" by (rule same_table_trans)
  with Cons.IH [of t2 h2] have "same_table t (snd (copy_table_notifiers l ev h2 t2))"
    by (rule same_table_trans [rotated])
  with s1 s2 show ?case by simp
qed

lemma copy_notify_list_frame: "same_table t (snd (copy_notify_list t n ev))"
proof -
  obtain ok t0 where m: "malloc t = (ok, t0)" by (cases "malloc t")
  with malloc_frame [of t] have t0: "same_table t t0" by simp
  show ?thesis
  proof (cases ok)
    case False
    with m t0 show ?thesis by (simp add: copy_notify_list_def)
  next
    case True
    obtain h1 t1 where c1: "copy_node_notifiers (node_notifier_head n) ev [] t0 = (h1, t1)"
      by (cases "copy_node_notifiers (node_notifier_head n) ev [] t0")
    with copy_node_notifiers_frame [of t0 "node_notifier_head n" ev "[]"]
    have "same_table t0 t1" by simp
    with t0 have t1: "same_table t t1" by (rule same_table_trans)
    obtain h2 t2 where c2: "copy_table_notifiers (notifier_head t1) ev h1 t1 = (h2, t2)"
      by (cases "copy_table_notifiers (notifier_head t1) ev h1 t1")
    with copy_table_notifiers_frame [of t1 "notifier_head t1" ev h1]
    have "same_table t1 t2" by simp
    with t1 have "same_table t t2" by (rule same_table_trans)
    with True m c1 c2 show ?thesis by (simp add: copy_notify_list_def)
  qed
qed

lemma table_copy_inserted:
  "concat (map (table_copy QB_MAP_NOTIFY_INSERTED) l) =
     map (\<lambda>tn. tn\<lparr>events := QB_MAP_NOTIFY_INSERTED\<rparr>)
       (filter (\<lambda>tn. events tn AND QB_MAP_NOTIFY_INSERTED \<noteq> 0) l)"
  by (induction l)
    (simp_all add: table_copy_def QB_MAP_NOTIFY_INSERTED_def QB_MAP_NOTIFY_DELETED_def
      QB_MAP_NOTIFY_REPLACED_def)

lemma table_copy_tagged:
  assumes "ev \<noteq> QB_MAP_NOTIFY_FREE"
  shows "filter (\<lambda>c. call_events c = ev) (map (invoke k old v) (concat (map (table_copy ev) l))) =
     map (\<lambda>tn. invoke k old v (tn\<lparr>events := ev\<rparr>)) (filter (\<lambda>tn. events tn AND ev \<noteq> 0) l)"
  using assms by (induction l) (auto simp add: table_copy_def invoke_def)

lemma table_copy_deleted:
  "filter (\<lambda>c. call_events c = QB_MAP_NOTIFY_DELETED)
       (map (invoke k old v) (concat (map (table_copy QB_MAP_NOTIFY_DELETED) l))) =
     map (\<lambda>tn. invoke k old v (tn\<lparr>events := QB_MAP_NOTIFY_DELETED\<rparr>))
       (filter (\<lambda>tn. events tn AND QB_MAP_NOTIFY_DELETED \<noteq> 0) l)"
  by (rule table_copy_tagged) (simp add: QB_MAP_NOTIFY_DELETED_def QB_MAP_NOTIFY_FREE_def)

lemma table_copy_del_free:
  assumes "events obs = QB_MAP_NOTIFY_DELETED OR QB_MAP_NOTIFY_FREE"
  shows "table_copy QB_MAP_NOTIFY_REPLACED obs = [obs\<lparr>events := QB_MAP_NOTIFY_FREE\<rparr>]"
    and "table_copy QB_MAP_NOTIFY_DELETED obs =
           [obs\<lparr>events := QB_MAP_NOTIFY_DELETED\<rparr>, obs\<lparr>events := QB_MAP_NOTIFY_FREE\<rparr>]"
  using assms
  by (simp_all add: table_copy_def QB_MAP_NOTIFY_DELETED_def QB_MAP_NOTIFY_REPLACED_def
      QB_MAP_NOTIFY_FREE_def)

lemma table_copy_free_mem:
  assumes "ev AND QB_MAP_NOTIFY_DELETED \<noteq> 0 \<or> ev AND QB_MAP_NOTIFY_REPLACED \<noteq> 0"
    and "tn \<in> set l" and "events tn AND QB_MAP_NOTIFY_FREE \<noteq> 0"
  shows "tn\<lparr>events := QB_MAP_NOTIFY_FREE\<rparr> \<in> set (concat (map (table_copy ev) l))"
  using assms by (auto simp add: table_copy_def intro!: bexI [of _ tn])

lemma observer_calls_append [simp]:
  "observer_calls obs (xs @ ys) = observer_calls obs xs @ observer_calls obs ys"
  by (simp add: observer_calls_def)

lemma observer_calls_table:
  "observer_calls obs (map (invoke k old v) (concat (map (table_copy ev) l))) =
     map (invoke k old v)
       (concat (map (table_copy ev)
          (filter (\<lambda>tn. callback tn = callback obs \<and> user_data tn = user_data obs) l)))"
  by (induction l) (auto simp add: observer_calls_def table_copy_def invoke_def)

lemma observer_calls_node:
  "\<forall>tn\<in>set l. \<not> (callback tn = callback obs \<and> user_data tn = user_data obs) \<Longrightarrow>
   observer_calls obs (map (invoke k old v) (node_copies ev l)) = []"
  by (induction l) (auto simp add: observer_calls_def node_copies_def invoke_def)

lemma notify_exists_free:
  "ev AND QB_MAP_NOTIFY_FREE \<noteq> 0 \<Longrightarrow>
   notify_exists ev fn ud l \<longleftrightarrow> (\<exists>f\<in>set l. events f = ev)"
  by (induction l) auto

lemma notify_exists_triple:
  "f \<in> set l \<Longrightarrow> events f = ev \<Longrightarrow> callback f = fn \<Longrightarrow> user_data f = ud
   \<Longrightarrow> notify_exists ev fn ud l"
  by (induction l) auto

subsection \<open>Chains and buckets\<close>

text \<open>Search, update and unlinking in one chain, and their effect on the list of all nodes.\<close>

lemma set_bucket_simps [simp]:
  "hash_buckets (set_bucket b c t) = (hash_buckets t)[b := c]"
  "count (set_bucket b c t) = count t"
  "order (set_bucket b c t) = order t"
  "hash_buckets_len (set_bucket b c t) = hash_buckets_len t"
  "notifier_head (set_bucket b c t) = notifier_head t"
  "heap_top (set_bucket b c t) = heap_top t"
  "allocs (set_bucket b c t) = allocs t"
  "errno (set_bucket b c t) = errno t"
  "trace (set_bucket b c t) = trace t"
  by (simp_all add: set_bucket_def)

lemma snapshot_set_bucket [simp]: "snapshot (set_bucket b c t) n ev = snapshot t n ev"
  by (simp add: snapshot_def)

lemma chain_find_store:
  "chain_find k c = Some (a, n) \<Longrightarrow> key n' = k \<Longrightarrow> chain_find k (chain_store a n' c) = Some (a, n')"
  by (induction c) (auto simp: chain_store_def)

lemma chain_find_None: "chain_find k c = None \<longleftrightarrow> k \<notin> set (map (\<lambda>(a, n). key n) c)"
  by (induction c) (auto split: if_splits)

lemma chain_find_Some_mem: "chain_find k c = Some (a, n) \<Longrightarrow> (a, n) \<in> set c \<and> key n = k"
  by (induction c) (auto split: if_splits)

lemma chain_find_append:
  "chain_find k (c @ [(a, n)]) =
     (case chain_find k c of Some x \<Rightarrow> Some x | None \<Rightarrow> if key n = k then Some (a, n) else None)"
  by (induction c) auto

lemma chain_del_store: "chain_del a (chain_store a n c) = chain_del a c"
  by (induction c) (auto simp: chain_del_def chain_store_def)

lemma chain_find_del:
  "distinct (map (\<lambda>(a, n). key n) c) \<Longrightarrow> chain_find k c = Some (a, n)
   \<Longrightarrow> chain_find k (chain_del a c) = None"
proof (induction c)
  case Nil
  then show ?case by simp
next
  case (Cons x c)
  obtain a' m where x: "x = (a', m)" by (cases x)
  show ?case
  proof (cases "key m = k")
    case True
    with Cons.prems x have "k \<notin> set (map (\<lambda>(a, n). key n) c)" "a' = a" by auto
    then have "k \<notin> set (map (\<lambda>(a, n). key n) (chain_del a c))"
      by (auto simp: chain_del_def)
    with x \<open>a' = a\<close> show ?thesis
      by (simp add: chain_find_None chain_del_def)
  next
    case False
    with Cons x show ?thesis by (auto simp: chain_del_def)
  qed
qed

lemma chain_del_fresh:
  "\<forall>(a', n')\<in>set c. a' \<noteq> a \<Longrightarrow> chain_del a (c @ [(a, n)]) = c"
  by (induction c) (auto simp: chain_del_def)

lemma chain_store_absent: "a \<notin> fst ` set c \<Longrightarrow> chain_store a m c = c"
  by (induction c) (auto simp: chain_store_def)

lemma fst_chain_store [simp]: "map fst (chain_store a m c) = map fst c"
  by (induction c) (auto simp: chain_store_def)

lemma fst_set_chain_store [simp]: "fst ` set (chain_store a m c) = fst ` set c"
proof -
  have "set (map fst (chain_store a m c)) = set (map fst c)" by (simp only: fst_chain_store)
  then show ?thesis by (simp only: set_map)
qed

lemma store_as_map:
  assumes "b < length bs" and "\<forall>i<length bs. i \<noteq> b \<longrightarrow> a \<notin> fst ` set (bs ! i)"
  shows "bs[b := chain_store a m (bs ! b)] = map (chain_store a m) bs"
proof (rule nth_equalityI)
  show "length (bs[b := chain_store a m (bs ! b)]) = length (map (chain_store a m) bs)" by simp
next
  fix i assume "i < length (bs[b := chain_store a m (bs ! b)])"
  then have i: "i < length bs" by simp
  show "bs[b := chain_store a m (bs ! b)] ! i = map (chain_store a m) bs ! i"
  proof (cases "i = b")
    case True
    with i show ?thesis by simp
  next
    case False
    with assms i have "chain_store a m (bs ! i) = bs ! i" by (simp add: chain_store_absent)
    with False i show ?thesis by simp
  qed
qed

lemma addr_unique:
  assumes d: "distinct (map fst (concat bs))"
    and i: "i < length bs" and j: "j < length bs"
    and x: "(a, n) \<in> set (bs ! i)" and y: "(a, m) \<in> set (bs ! j)"
  shows "i = j \<and> n = m"
proof -
  have disj: "False" if ij: "p < q" and q: "q < length bs"
    and xp: "(a, u) \<in> set (bs ! p)" and yq: "(a, w) \<in> set (bs ! q)" for p q u w
  proof -
    from ij q have p: "p < length bs" by simp
    have "bs = take p bs @ bs ! p # drop (Suc p) bs" using p by (rule id_take_nth_drop)
    then have c: "concat bs = concat (take p bs) @ bs ! p @ concat (drop (Suc p) bs)"
      by (metis concat.simps(2) concat_append)
    from ij q have "drop (Suc p) bs ! (q - Suc p) = bs ! q" by simp
    moreover from ij q have "q - Suc p < length (drop (Suc p) bs)" by simp
    ultimately have "bs ! q \<in> set (drop (Suc p) bs)" by (metis nth_mem)
    with yq have "(a, w) \<in> set (concat (drop (Suc p) bs))" by auto
    then have az: "a \<in> fst ` set (concat (drop (Suc p) bs))" by (rule image_eqI [rotated]) simp
    from xp have ay: "a \<in> fst ` set (bs ! p)" by (rule image_eqI [rotated]) simp
    from d have "distinct (map fst (concat (take p bs) @ bs ! p @ concat (drop (Suc p) bs)))"
      by (subst (asm) c)
    then have "fst ` set (bs ! p) \<inter> fst ` set (concat (drop (Suc p) bs)) = {}"
      by (simp only: map_append distinct_append set_map)
    with ay az show False by blast
  qed
  have "i = j"
  proof (rule ccontr)
    assume "i \<noteq> j"
    then consider "i < j" | "j < i" by linarith
    then show False using disj i j x y by cases blast+
  qed
  moreover have "distinct (map fst (bs ! i))"
  proof -
    have "bs = take i bs @ bs ! i # drop (Suc i) bs" using i by (rule id_take_nth_drop)
    then have c: "concat bs = concat (take i bs) @ bs ! i @ concat (drop (Suc i) bs)"
      by (metis concat.simps(2) concat_append)
    from d have "distinct (map fst (concat (take i bs) @ bs ! i @ concat (drop (Suc i) bs)))"
      by (subst (asm) c)
    then show ?thesis by simp
  qed
  ultimately show ?thesis using x y by (auto dest: eq_key_imp_eq_value)
qed

lemma map_of_chain_store_same:
  "a \<in> fst ` set c \<Longrightarrow> map_of (chain_store a m c) a = Some m"
  by (induction c) (auto simp: chain_store_def)

lemma map_of_chain_store_other:
  "a \<noteq> x \<Longrightarrow> map_of (chain_store x m c) a = map_of c a"
  by (induction c) (auto simp: chain_store_def)

lemma chain_store_restore:
  "\<forall>(x, y)\<in>set c. x = a \<longrightarrow> y = n \<Longrightarrow> chain_store a n (chain_store a m c) = c"
  by (induction c) (auto simp: chain_store_def)

lemma chain_store_swap:
  "\<forall>(x, y)\<in>set c. x = a \<longrightarrow> y = n \<Longrightarrow> a \<noteq> a' \<Longrightarrow>
   chain_store a n (chain_store a' m' (chain_store a m c)) = chain_store a' m' c"
  by (induction c) (auto simp: chain_store_def)

lemma concat_chain_store [simp]:
  "map fst (concat (map (chain_store a m) bs)) = map fst (concat bs)"
  by (induction bs) simp_all

lemma concat_fst_cong:
  "(\<And>c. map fst (f c) = map fst c) \<Longrightarrow> map fst (concat (map f bs)) = map fst (concat bs)"
  by (induction bs) simp_all

lemma concat_update:
  "b < length bs \<Longrightarrow>
   concat (bs[b := c]) = concat (take b bs) @ c @ concat (drop (Suc b) bs)"
  by (simp add: upd_conv_take_nth_drop)

lemma concat_nth:
  "b < length bs \<Longrightarrow> concat bs = concat (take b bs) @ bs ! b @ concat (drop (Suc b) bs)"
  using concat_update [of b bs "bs ! b"] by simp

lemma distinct_concat_index:
  "(\<And>i. i < length xss \<Longrightarrow> distinct (xss ! i)) \<Longrightarrow>
   (\<And>i j. i < j \<Longrightarrow> j < length xss \<Longrightarrow> set (xss ! i) \<inter> set (xss ! j) = {}) \<Longrightarrow>
   distinct (concat xss)"
proof (induction xss)
  case Nil
  show ?case by simp
next
  case (Cons x xss)
  from Cons.prems(1) [of 0] have dx: "distinct x" by simp
  have "distinct (concat xss)"
  proof (rule Cons.IH)
    fix i assume "i < length xss"
    with Cons.prems(1) [of "Suc i"] show "distinct (xss ! i)" by simp
  next
    fix i j assume "i < j" "j < length xss"
    with Cons.prems(2) [of "Suc i" "Suc j"] show "set (xss ! i) \<inter> set (xss ! j) = {}" by simp
  qed
  moreover have "set x \<inter> set (concat xss) = {}"
  proof -
    have "set x \<inter> set ys = {}" if "ys \<in> set xss" for ys
    proof -
      from that obtain j where "j < length xss" "ys = xss ! j" by (auto simp: in_set_conv_nth)
      with Cons.prems(2) [of 0 "Suc j"] show ?thesis by simp
    qed
    then show ?thesis by auto
  qed
  ultimately show ?case using dx by simp
qed

lemma distinct_mid_filter:
  assumes "distinct (map f (xs @ c @ zs))"
  shows "distinct (map f (xs @ filter P c @ zs))"
proof -
  have sub: "f ` set (filter P c) \<subseteq> f ` set c" by auto
  from assms have "distinct (map f xs)" "distinct (map f c)" "distinct (map f zs)"
    and d1: "f ` set c \<inter> f ` set zs = {}"
    and d2: "f ` set xs \<inter> (f ` set c \<union> f ` set zs) = {}"
    by (simp_all add: image_Un)
  moreover from sub d1 have "f ` set (filter P c) \<inter> f ` set zs = {}" by blast
  moreover from sub d2 have "f ` set xs \<inter> (f ` set (filter P c) \<union> f ` set zs) = {}"
    by blast
  ultimately show ?thesis
    by (simp only: map_append distinct_append set_map set_append image_Un distinct_map_filter)
qed

lemma key_unique:
  assumes "distinct (map (\<lambda>(a, n). key n) c)" and "(a, n) \<in> set c" and "(x, y) \<in> set c"
    and "key y = key n"
  shows "x = a \<and> y = n"
proof -
  from assms(1) have "inj_on (\<lambda>(a, n). key n) (set c)" by (simp add: distinct_map)
  from inj_onD [OF this _ assms(3) assms(2)] assms(4) show ?thesis by simp
qed

lemma chain_find_del_none:
  assumes dk: "distinct (map (\<lambda>(a, n). key n) c)" and mem: "(a, n) \<in> set c"
  shows "chain_find (key n) (chain_del a c) = None"
proof -
  have "key n \<notin> set (map (\<lambda>(a, n). key n) (chain_del a c))"
  proof
    assume "key n \<in> set (map (\<lambda>(a, n). key n) (chain_del a c))"
    then obtain x y where "(x, y) \<in> set c" "x \<noteq> a" "key y = key n"
      by (auto simp add: chain_del_def)
    with key_unique [OF dk mem] show False by blast
  qed
  then show ?thesis by (simp only: chain_find_None) simp
qed

lemma chain_find_del_store_none:
  assumes dk: "distinct (map (\<lambda>(a, n). key n) c)"
    and mem: "(a, n) \<in> set c" and mem': "(a', n') \<in> set c" and ne: "a' \<noteq> a"
    and km: "key m' = key n'"
  shows "chain_find (key n) (chain_del a (chain_store a' m' c)) = None"
proof -
  have "key n \<notin> set (map (\<lambda>(a, n). key n) (chain_del a (chain_store a' m' c)))"
  proof
    assume "key n \<in> set (map (\<lambda>(a, n). key n) (chain_del a (chain_store a' m' c)))"
    then obtain x y where xy: "(x, y) \<in> set (chain_store a' m' c)" "x \<noteq> a" "key y = key n"
      by (auto simp add: chain_del_def)
    from xy(1) consider "x = a'" "y = m'" | "(x, y) \<in> set c"
      by (auto simp add: chain_store_def split: if_splits)
    then show False
    proof cases
      case 1
      with xy km have "key n' = key n" by simp
      with key_unique [OF dk mem mem'] ne show False by simp
    next
      case 2
      with key_unique [OF dk mem] xy show False by blast
    qed
  qed
  then show ?thesis by (simp only: chain_find_None) simp
qed

lemma keys_chain_store:
  "distinct (map fst c) \<Longrightarrow> (a, n) \<in> set c \<Longrightarrow> key m = key n \<Longrightarrow>
   map (\<lambda>(a, n). key n) (chain_store a m c) = map (\<lambda>(a, n). key n) c"
proof (induction c)
  case Nil
  then show ?case by simp
next
  case (Cons x c)
  obtain y u where x: "x = (y, u)" by (cases x)
  show ?case
  proof (cases "y = a")
    case True
    with Cons.prems x have "u = n" "a \<notin> fst ` set c" by force+
    with True x Cons.prems(3) show ?thesis
      by (simp add: chain_store_def chain_store_absent [unfolded chain_store_def])
  next
    case False
    with Cons x have "map (\<lambda>(a, n). key n) (chain_store a m c) = map (\<lambda>(a, n). key n) c"
      by auto
    with False x show ?thesis by (simp add: chain_store_def)
  qed
qed

lemma store_state:
  assumes d: "distinct (map fst (concat (hash_buckets s)))"
    and b: "b < length (hash_buckets s)"
    and a: "a \<in> fst ` set (hash_buckets s ! b)"
  shows "set_bucket b (chain_store a m (hash_buckets s ! b)) s =
           s\<lparr>hash_buckets := map (chain_store a m) (hash_buckets s)\<rparr>"
proof -
  from a obtain n where n: "(a, n) \<in> set (hash_buckets s ! b)" by auto
  have "\<forall>i<length (hash_buckets s). i \<noteq> b \<longrightarrow> a \<notin> fst ` set (hash_buckets s ! i)"
  proof (intro allI impI notI)
    fix i assume i: "i < length (hash_buckets s)" and ne: "i \<noteq> b"
      and "a \<in> fst ` set (hash_buckets s ! i)"
    then obtain u where "(a, u) \<in> set (hash_buckets s ! i)" by auto
    with addr_unique [OF d i b _ n] ne show False by blast
  qed
  with b show ?thesis by (simp add: set_bucket_def store_as_map)
qed

lemma first_live_all:
  "\<forall>(a, n)\<in>set c. 0 < refcount n \<Longrightarrow>
   first_live c = (case c of [] \<Rightarrow> None | x # xs \<Rightarrow> Some x)"
  by (cases c) auto

lemma first_live_mem: "first_live c = Some (a, n) \<Longrightarrow> (a, n) \<in> set c"
  by (induction c) (auto split: if_splits)

lemma chain_after_subset: "chain_after a c = Some r \<Longrightarrow> set r \<subseteq> set c"
  by (induction c) (auto split: if_splits)

lemma chain_after_mem: "a \<in> fst ` set c \<Longrightarrow> \<exists>r. chain_after a c = Some r"
  by (induction c) force+

lemma chain_after_next:
  "chain_after a c = Some ((a', n') # r) \<Longrightarrow> distinct (map fst c) \<Longrightarrow>
   chain_after a' c = Some r"
proof (induction c)
  case Nil
  then show ?case by simp
next
  case (Cons x c)
  obtain y m where x: "x = (y, m)" by (cases x)
  show ?case
  proof (cases "y = a")
    case True
    with Cons.prems x show ?thesis by auto
  next
    case False
    with Cons.prems x have after: "chain_after a c = Some ((a', n') # r)" by simp
    with Cons have ih: "chain_after a' c = Some r" by simp
    from after have "(a', n') \<in> set c" using chain_after_subset by fastforce
    with Cons.prems(2) x have "y \<noteq> a'" by force
    with ih x show ?thesis by simp
  qed
qed

lemma chain_after_notin:
  "chain_after a c = Some r \<Longrightarrow> distinct (map fst c) \<Longrightarrow> a \<notin> fst ` set r"
proof (induction c)
  case Nil
  then show ?case by simp
next
  case (Cons x c)
  then show ?case by (cases x) (auto split: if_splits)
qed

lemma chain_after_store:
  "chain_after a c = Some r \<Longrightarrow> distinct (map fst c) \<Longrightarrow> chain_after a (chain_store a m c) = Some r"
proof (induction c)
  case Nil
  then show ?case by simp
next
  case (Cons x c)
  obtain y u where x: "x = (y, u)" by (cases x)
  show ?case
  proof (cases "y = a")
    case True
    with Cons.prems x have "r = c" "a \<notin> fst ` set c" by auto
    with True x show ?thesis by (simp add: chain_store_def chain_store_absent [unfolded chain_store_def])
  next
    case False
    with Cons x show ?thesis by (simp add: chain_store_def)
  qed
qed

subsection \<open>Consequences of the invariant\<close>

text \<open>What a well-formed table gives: bucket indices in range, and keys and addresses that identify a node.\<close>

lemma hash_in_range:
  "wf_table t \<Longrightarrow> unat (qb_hash_string k (order t)) < length (hash_buckets t)"
proof -
  assume wf: "wf_table t"
  let ?n = "unat (order t)"
  from wf have n: "?n < 31" and len: "length (hash_buckets t) = unat (push_bit ?n 1 :: 32 word)"
    by (simp_all add: wf_table_def)
  have "(push_bit ?n 1 :: 32 word) - 1 = mask ?n"
    by (simp add: mask_eq_decr_exp push_bit_eq_mult)
  then have "qb_hash_string k (order t) =
      (drop_bit ?n (fnv_loop 0x811c9dc5 k) XOR fnv_loop 0x811c9dc5 k) AND mask ?n"
    by (simp add: qb_hash_string_def hash_fnv_def Let_def)
  moreover have "(x :: 32 word) AND mask ?n < 2 ^ ?n" for x
    using n by (intro and_mask_less_size) (simp add: word_size)
  ultimately have "qb_hash_string k (order t) < 2 ^ ?n" by simp
  then have "unat (qb_hash_string k (order t)) < unat ((2::32 word) ^ ?n)"
    by (simp add: word_less_nat_alt)
  then show ?thesis using len by (simp add: push_bit_eq_mult)
qed

lemma wf_len: "wf_table t \<Longrightarrow> unat (hash_buckets_len t) = length (hash_buckets t)"
  by (simp add: wf_table_def)

lemma wf_distinct: "wf_table t \<Longrightarrow> distinct (map fst (concat (hash_buckets t)))"
  by (simp add: wf_table_def)

lemma wf_chain_distinct:
  assumes "wf_table t" and "b < length (hash_buckets t)"
  shows "distinct (map fst (hash_buckets t ! b))"
proof -
  let ?bs = "hash_buckets t"
  have "?bs = take b ?bs @ ?bs ! b # drop (Suc b) ?bs" using assms(2) by (rule id_take_nth_drop)
  then have c: "concat ?bs = concat (take b ?bs) @ ?bs ! b @ concat (drop (Suc b) ?bs)"
    by (metis concat.simps(2) concat_append)
  from wf_distinct [OF assms(1)]
  have "distinct (map fst (concat (take b ?bs) @ ?bs ! b @ concat (drop (Suc b) ?bs)))"
    by (subst (asm) c)
  then show ?thesis by simp
qed

lemma wf_hash:
  assumes "wf_table t" and "b < length (hash_buckets t)" and "(a, n) \<in> set (hash_buckets t ! b)"
  shows "unat (qb_hash_string (key n) (order t)) = b"
proof -
  from assms(1) have "\<forall>b<length (hash_buckets t). \<forall>(a, n)\<in>set (hash_buckets t ! b).
      unat (qb_hash_string (key n) (order t)) = b \<and> a < heap_top t"
    by (simp add: wf_table_def)
  with assms(2,3) show ?thesis by blast
qed

lemma wf_keys_distinct:
  assumes wf: "wf_table t"
  shows "distinct (map (\<lambda>(a, n). key n) (concat (hash_buckets t)))"
proof -
  let ?f = "\<lambda>(a, n). key n"
  let ?bs = "hash_buckets t"
  have "distinct (concat (map (map ?f) ?bs))"
  proof (rule distinct_concat_index)
    fix i assume "i < length (map (map ?f) ?bs)"
    with wf show "distinct (map (map ?f) ?bs ! i)" by (simp add: wf_table_def)
  next
    fix i j assume ij: "i < j" and j: "j < length (map (map ?f) ?bs)"
    then have i': "i < length ?bs" and j': "j < length ?bs" by simp_all
    have disj: "False" if "k \<in> set (map ?f (?bs ! i))" and "k \<in> set (map ?f (?bs ! j))" for k
    proof -
      from that obtain a n a' n' where
        "(a, n) \<in> set (?bs ! i)" "key n = k" "(a', n') \<in> set (?bs ! j)" "key n' = k" by auto
      with wf_hash [OF wf i', of a n] wf_hash [OF wf j', of a' n'] ij show False by simp
    qed
    have "set (map ?f (?bs ! i)) \<inter> set (map ?f (?bs ! j)) = {}"
      using disj by blast
    with i' j' show "set (map (map ?f) ?bs ! i) \<inter> set (map (map ?f) ?bs ! j) = {}"
      by (simp only: nth_map)
  qed
  then show ?thesis by (simp add: map_concat)
qed

lemma wf_keys_present:
  assumes wf: "wf_table t"
  shows "hashtable_lookup t k \<noteq> None \<longleftrightarrow> k \<in> set (map (\<lambda>(a, n). key n) (concat (hash_buckets t)))"
proof
  let ?h = "unat (qb_hash_string k (order t))"
  assume "hashtable_lookup t k \<noteq> None"
  then obtain a n where "chain_find k (hash_buckets t ! ?h) = Some (a, n)"
    by (auto simp add: hashtable_lookup_def)
  then have "(a, n) \<in> set (hash_buckets t ! ?h)" "key n = k"
    by (simp_all add: chain_find_Some_mem)
  moreover from wf have "?h < length (hash_buckets t)" by (rule hash_in_range)
  ultimately have "(a, n) \<in> set (concat (hash_buckets t))" "key n = k" by auto
  then show "k \<in> set (map (\<lambda>(a, n). key n) (concat (hash_buckets t)))" by force
next
  assume "k \<in> set (map (\<lambda>(a, n). key n) (concat (hash_buckets t)))"
  then obtain a n c where c: "c \<in> set (hash_buckets t)" and mem: "(a, n) \<in> set c"
    and k: "key n = k" by auto
  from c obtain i where i: "i < length (hash_buckets t)" and ci: "c = hash_buckets t ! i"
    by (auto simp: in_set_conv_nth)
  with wf_hash [OF wf i, of a n] mem k have "unat (qb_hash_string k (order t)) = i"
    by simp
  moreover from mem k ci have "k \<in> set (map (\<lambda>(a, n). key n) (hash_buckets t ! i))" by force
  ultimately show "hashtable_lookup t k \<noteq> None"
    by (simp add: hashtable_lookup_def chain_find_None)
qed

lemma wf_keys_chain:
  "wf_table t \<Longrightarrow> b < length (hash_buckets t) \<Longrightarrow>
   distinct (map (\<lambda>(a, n). key n) (hash_buckets t ! b))"
  by (simp add: wf_table_def)

lemma unat_bucket_index:
  "wf_table t \<Longrightarrow> b < length (hash_buckets t) \<Longrightarrow> unat (of_nat b :: 32 word) = b"
proof -
  assume "wf_table t" and b: "b < length (hash_buckets t)"
  then have "b < unat (hash_buckets_len t)" by (simp add: wf_len)
  also have "\<dots> < 2 ^ 32" using unsigned_less [of "hash_buckets_len t"] by simp
  finally show ?thesis by (simp add: unat_of_nat)
qed

lemma only_content:
  assumes wf: "wf_table t" and b: "b < length (hash_buckets t)"
    and mem: "(a, n) \<in> set (hash_buckets t ! b)"
    and c: "c \<in> set (hash_buckets t)"
  shows "\<forall>(x, y)\<in>set c. x = a \<longrightarrow> y = n"
proof -
  from c obtain i where i: "i < length (hash_buckets t)" and ci: "c = hash_buckets t ! i"
    by (auto simp: in_set_conv_nth)
  show ?thesis
  proof (clarify)
    fix y assume "(a, y) \<in> set c"
    with ci have "(a, y) \<in> set (hash_buckets t ! i)" by simp
    from addr_unique [OF wf_distinct [OF wf] i b this mem] show "y = n" by simp
  qed
qed

subsection \<open>Dereference, removal and insertion\<close>

text \<open>The effect of \<^verbatim>\<open>hashtable_node_deref\<close>, \<^verbatim>\<open>hashtable_rm\<close> and \<^verbatim>\<open>hashtable_put\<close> when every allocation succeeds.\<close>

lemma deref_pinned:
  "1 < refcount n \<Longrightarrow>
   hashtable_node_deref t b a n =
     set_bucket b (chain_store a (n\<lparr>refcount := refcount n - 1\<rparr>) (hash_buckets t ! b)) t"
  by (auto simp: hashtable_node_deref_def Let_def word_greater_zero_iff)

lemma deref_last:
  "refcount n = 1 \<Longrightarrow> allocs t = [] \<Longrightarrow> b < length (hash_buckets t) \<Longrightarrow>
   hashtable_node_deref t b a n =
     (set_bucket b (chain_del a (hash_buckets t ! b)) t)
       \<lparr>trace := trace t @ map (invoke (key n) (node_value n) NULL)
                             (snapshot t n QB_MAP_NOTIFY_DELETED)\<rparr>"
  by (simp add: hashtable_node_deref_def Let_def hashtable_node_destroy_def copy_notify_list_ok
      hashtable_notify_def chain_del_store snapshot_def set_bucket_def)

lemma deref_last_buckets:
  assumes "refcount n = 1" and "b < length (hash_buckets t)"
  shows "hash_buckets (hashtable_node_deref t b a n) =
           (hash_buckets t)[b := chain_del a (hash_buckets t ! b)]"
proof -
  let ?n' = "n\<lparr>refcount := refcount n - 1\<rparr>"
  let ?t' = "set_bucket b (chain_store a ?n' (hash_buckets t ! b)) t"
  obtain nl t1 where c: "copy_notify_list ?t' ?n' QB_MAP_NOTIFY_DELETED = (nl, t1)"
    by (cases "copy_notify_list ?t' ?n' QB_MAP_NOTIFY_DELETED")
  with copy_notify_list_frame [of ?t' ?n' QB_MAP_NOTIFY_DELETED]
  have "same_table ?t' t1" by simp
  then have "hash_buckets t1 = (hash_buckets t)[b := chain_store a ?n' (hash_buckets t ! b)]"
    by (simp add: same_table_def)
  with assms c show ?thesis
    by (simp add: hashtable_node_deref_def Let_def hashtable_node_destroy_def
        hashtable_notify_def chain_del_store split: option.splits)
qed

lemma deref_frame [simp]:
  "count (hashtable_node_deref t b a n) = count t"
  "order (hashtable_node_deref t b a n) = order t"
proof -
  let ?n' = "n\<lparr>refcount := refcount n - 1\<rparr>"
  let ?t' = "set_bucket b (chain_store a ?n' (hash_buckets t ! b)) t"
  obtain nl t1 where c: "copy_notify_list ?t' ?n' QB_MAP_NOTIFY_DELETED = (nl, t1)"
    by (cases "copy_notify_list ?t' ?n' QB_MAP_NOTIFY_DELETED")
  with copy_notify_list_frame [of ?t' ?n' QB_MAP_NOTIFY_DELETED]
  have t1: "same_table ?t' t1" by simp
  show "count (hashtable_node_deref t b a n) = count t"
    using c t1 by (simp add: hashtable_node_deref_def Let_def hashtable_node_destroy_def
        hashtable_notify_def same_table_def split: option.splits)
  show "order (hashtable_node_deref t b a n) = order t"
    using c t1 by (simp add: hashtable_node_deref_def Let_def hashtable_node_destroy_def
        hashtable_notify_def same_table_def split: option.splits)
qed

lemma deref_keep:
  "0 < refcount n - 1 \<Longrightarrow>
   hashtable_node_deref t b a n =
     set_bucket b (chain_store a (n\<lparr>refcount := refcount n - 1\<rparr>) (hash_buckets t ! b)) t"
  by (simp add: hashtable_node_deref_def Let_def)

lemma destroy_unlinks:
  assumes wf: "wf_table t" and b: "b < length (hash_buckets t)"
    and mem: "(a, n) \<in> set (hash_buckets t ! b)"
    and len: "length bs1 = length (hash_buckets t)"
    and fst: "\<forall>i<length (hash_buckets t). fst ` set (bs1 ! i) = fst ` set (hash_buckets t ! i)"
  shows "\<forall>c\<in>set (bs1[b := chain_del a (bs1 ! b)]). a \<notin> fst ` set c"
proof
  fix c assume "c \<in> set (bs1[b := chain_del a (bs1 ! b)])"
  then obtain i where i: "i < length bs1" and c: "c = bs1[b := chain_del a (bs1 ! b)] ! i"
    by (auto simp: in_set_conv_nth)
  show "a \<notin> fst ` set c"
  proof (cases "i = b")
    case True
    with i c show ?thesis by (auto simp add: chain_del_def)
  next
    case False
    with i c have c': "c = bs1 ! i" by simp
    have "a \<notin> fst ` set (hash_buckets t ! i)"
    proof
      assume "a \<in> fst ` set (hash_buckets t ! i)"
      then obtain u where "(a, u) \<in> set (hash_buckets t ! i)" by auto
      from addr_unique [OF wf_distinct [OF wf] _ b this mem] i len False show False by simp
    qed
    with fst i len c' show ?thesis by simp
  qed
qed

lemma rm_found:
  "chain_find k (hash_buckets t ! unat (qb_hash_string k (order t))) = Some (a, n) \<Longrightarrow>
   hashtable_rm t k =
     (True, (hashtable_node_deref t (unat (qb_hash_string k (order t))) a n)
              \<lparr>count := count (hashtable_node_deref t (unat (qb_hash_string k (order t))) a n) - 1\<rparr>)"
  by (simp add: hashtable_rm_def hashtable_rm_with_hash_def Let_def)

lemma rm_absent:
  "chain_find k (hash_buckets t ! unat (qb_hash_string k (order t))) = None \<Longrightarrow>
   hashtable_rm t k = (False, t)"
  by (simp add: hashtable_rm_def hashtable_rm_with_hash_def Let_def)

lemma put_insert:
  assumes "chain_find k (hash_buckets t ! unat (qb_hash_string k (order t))) = None"
    and "allocs t = []"
  shows "hashtable_put t k v =
     (set_bucket (unat (qb_hash_string k (order t)))
        (hash_buckets t ! unat (qb_hash_string k (order t)) @
           [(heap_top t, \<lparr>key = k, node_value = v, refcount = 1, node_notifier_head = []\<rparr>)])
        t)
       \<lparr>count := count t + 1, heap_top := heap_top t + 1,
        trace := trace t @ map (invoke k NULL v) (concat (map (table_copy QB_MAP_NOTIFY_INSERTED) (notifier_head t)))\<rparr>"
  using assms
  by (simp add: hashtable_put_def Let_def malloc_ok copy_notify_list_ok hashtable_notify_def
      snapshot_def node_copies_def set_bucket_def)

lemma put_replace:
  assumes "chain_find k (hash_buckets t ! unat (qb_hash_string k (order t))) = Some (a, n)"
    and "allocs t = []"
  shows "hashtable_put t k v =
     (set_bucket (unat (qb_hash_string k (order t)))
        (chain_store a (n\<lparr>key := k, node_value := v\<rparr>)
           (hash_buckets t ! unat (qb_hash_string k (order t)))) t)
       \<lparr>trace := trace t @ map (invoke (key n) (node_value n) v)
                             (snapshot t n QB_MAP_NOTIFY_REPLACED)\<rparr>"
  using assms
  by (simp add: hashtable_put_def Let_def copy_notify_list_ok hashtable_notify_def
      snapshot_def set_bucket_def)

subsection \<open>Creation\<close>

text \<open>The loop of \<^verbatim>\<open>qb_hashtable_create\<close> computes the bit length of \<open>max_size\<close>.\<close>

lemma signed_drop_bit_nonneg:
  fixes n :: "32 word"
  assumes "unat n < 2 ^ 31"
  shows "signed_drop_bit 1 n = drop_bit 1 n"
proof (rule bit_word_eqI)
  fix k assume k: "k < LENGTH(32)"
  from assms have "unat n div 2 ^ 31 = 0" by simp
  then have "\<not> bit (unat n) 31" by (simp add: bit_iff_odd)
  then have n31: "\<not> bit n 31" by (simp add: bit_unsigned_iff)
  have n32: "\<not> bit n 32" using bit_imp_le_length [of n 32] by auto
  show "bit (signed_drop_bit 1 n) k = bit (drop_bit 1 n) k"
  proof (cases "k = 31")
    case True
    with n31 n32 show ?thesis by (simp add: bit_signed_drop_bit_iff bit_drop_bit_eq)
  next
    case False
    with k have "k < 31" by simp
    then show ?thesis by (simp add: bit_signed_drop_bit_iff bit_drop_bit_eq)
  qed
qed

lemma unat_drop_bit_1: "unat (drop_bit 1 (n :: 32 word)) = unat n div 2"
  by (metis drop_bit_eq_div power_one_right unat_drop_bit_eq)

lemma order_loop_floorlog:
  "unat n < 2 ^ 31 \<Longrightarrow> order_loop i n = Some (i + of_nat (floorlog 2 (unat n)))"
proof (induction "unat n" arbitrary: n i rule: less_induct)
  case less
  show ?case
  proof (cases "n = 0")
    case True
    then show ?thesis by (simp add: order_loop.simps floorlog_def)
  next
    case False
    then have pos: "0 < unat n" by (simp add: unat_gt_0)
    let ?m = "signed_drop_bit 1 n"
    have m: "?m = drop_bit 1 n" using less.prems by (rule signed_drop_bit_nonneg)
    have um: "unat ?m = unat n div 2" unfolding m by (rule unat_drop_bit_1)
    with pos have "unat ?m < unat n" by simp
    moreover from um less.prems have "unat ?m < 2 ^ 31" by simp
    ultimately have "order_loop (i + 1) ?m = Some (i + 1 + of_nat (floorlog 2 (unat ?m)))"
      by (rule less.hyps)
    moreover have "floorlog 2 (unat n) = floorlog 2 (unat n div 2) + 1"
      using pos by (subst compute_floorlog) simp
    ultimately show ?thesis
      using False um by (subst order_loop.simps) simp
  qed
qed

lemma floorlog_ceillog2: "floorlog 2 n = ceillog2 (n + 1)"
proof (cases "n = 0")
  case True
  then show ?thesis by (simp add: floorlog_def)
next
  case False
  let ?l = "floorlog 2 n"
  from False floorlog_bounds [of n 2]
  have lo: "2 ^ (?l - 1) \<le> n" and hi: "n < 2 ^ ?l" by simp_all
  from hi False have "?l \<noteq> 0" by (cases "?l = 0") auto
  then have "(2::nat) ^ ?l = 2 * 2 ^ (?l - 1)" by (cases ?l) simp_all
  with lo have "(2::nat) ^ ?l < 2 * (n + 1)" by simp
  moreover from hi have "n + 1 \<le> 2 ^ ?l" by simp
  ultimately show ?thesis by (simp add: ceillog2_eqI)
qed

lemma pow_le_30: "k \<le> 30 \<Longrightarrow> (2::nat) ^ k \<le> 2 ^ 30"
  by (rule power_increasing) simp_all

lemma sint_small: "k \<le> 30 \<Longrightarrow> sint (of_nat k :: 32 word) = int k"
  by (simp add: signed_of_nat signed_take_bit_int_eq_self)

lemma unat_small: "k \<le> 30 \<Longrightarrow> unat (of_nat k :: 32 word) = k"
  by (simp add: unat_of_nat)

lemma QB_MAX_small: "k \<le> 30 \<Longrightarrow> QB_MAX (of_nat k) 3 = of_nat (max 3 k)"
  using sint_small [of k] sint_small [of 3]
  by (auto simp add: QB_MAX_def word_sless_alt max_def)

lemma unat_pow_small: "k \<le> 30 \<Longrightarrow> unat (2 ^ k :: 32 word) = 2 ^ k"
proof -
  assume k: "k \<le> 30"
  have "(2 ^ k :: 32 word) = of_nat (2 ^ k)" by simp
  then have "unat (2 ^ k :: 32 word) = 2 ^ k mod 2 ^ LENGTH(32)"
    by (simp only: unat_of_nat)
  also have "\<dots> = 2 ^ k" using pow_le_30 [OF k] by simp
  finally show ?thesis .
qed

lemma unat_push_bit_small: "k \<le> 30 \<Longrightarrow> unat (push_bit k 1 :: 32 word) = 2 ^ k"
  using unat_pow_small [of k] by (simp only: push_bit_of_1)

lemma unat_ucast_small:
  "unat (w :: 64 word) < 2 ^ 30 \<Longrightarrow> unat (ucast w :: 32 word) = unat w"
  by (simp add: unsigned_ucast_eq take_bit_nat_eq_self_iff)

lemma create_explicit:
  assumes small: "unat max_size < 2 ^ 30"
  shows "qb_hashtable_create plan max_size =
     (if plan \<noteq> [] \<and> \<not> hd plan then Returned_NULL
      else Created \<lparr>count = 0, order = of_nat (max 3 (floorlog 2 (unat max_size))),
               hash_buckets_len = push_bit (max 3 (floorlog 2 (unat max_size))) 1,
               notifier_head = [],
               hash_buckets = replicate (2 ^ max 3 (floorlog 2 (unat max_size))) [],
               heap_top = 1, allocs = tl plan, errno = 0, trace = []\<rparr>)"
proof -
  let ?m = "unat max_size"
  let ?n = "ucast max_size :: 32 word"
  let ?fl = "floorlog 2 ?m"
  have un: "unat ?n = ?m" using small by (rule unat_ucast_small)
  with small have loop: "order_loop 0 ?n = Some (of_nat ?fl)"
    by (simp add: order_loop_floorlog)
  have fl: "?fl \<le> 30" using small by (simp add: floorlog_le_iff)
  then have mx: "max 3 ?fl \<le> 30" by simp
  note facts = QB_MAX_small [OF fl] unat_small [OF mx] unat_push_bit_small [OF mx]
  show ?thesis
    using mx by (auto simp add: qb_hashtable_create_def Let_def loop facts unat_pow_small)
qed

subsection \<open>Iteration\<close>

text \<open>One step of \<^verbatim>\<open>hashtable_iter_next\<close> from a pinned node returns the next entry in bucket and link order; a full loop returns them all.\<close>

lemma entries_from_step:
  "b < length bs \<Longrightarrow> entries_from bs b = map (Pair b) (bs ! b) @ entries_from bs (Suc b)"
  by (simp add: entries_from_def upt_conv_Cons)

lemma entries_from_end: "length bs \<le> b \<Longrightarrow> entries_from bs b = []"
  by (simp add: entries_from_def)

lemma entries_from_zero: "map snd (entries_from bs 0) = concat bs"
proof -
  have "map snd (entries_from bs 0) = concat (map (\<lambda>i. bs ! i) [0..<length bs])"
    by (simp add: entries_from_def map_concat comp_def)
  also have "map (\<lambda>i. bs ! i) [0..<length bs] = bs" by (rule map_nth)
  finally show ?thesis .
qed

lemma entries_from_head:
  "entries_from bs b0 = (b', a', n') # ys \<Longrightarrow>
   b' < length bs \<and>
   (\<exists>rest'. bs ! b' = (a', n') # rest' \<and> ys = map (Pair b') rest' @ entries_from bs (Suc b'))"
proof (induction "length bs - b0" arbitrary: b0)
  case 0
  then show ?case by (simp add: entries_from_end)
next
  case (Suc d)
  then have b0: "b0 < length bs" by simp
  show ?case
  proof (cases "bs ! b0")
    case Nil
    with b0 Suc.prems have "entries_from bs (Suc b0) = (b', a', n') # ys"
      by (simp add: entries_from_step)
    moreover from Suc.hyps(2) have "d = length bs - Suc b0" by simp
    ultimately show ?thesis using Suc.hyps(1) by blast
  next
    case (Cons x xs)
    with b0 Suc.prems show ?thesis
      by (auto simp add: entries_from_step)
  qed
qed

lemma entries_from_head_le:
  "entries_from bs b0 = (b', a', n') # ys \<Longrightarrow> b0 \<le> b'"
proof (induction "length bs - b0" arbitrary: b0)
  case 0
  then show ?case by (simp add: entries_from_end)
next
  case (Suc d)
  then have b0: "b0 < length bs" by simp
  show ?case
  proof (cases "bs ! b0")
    case Nil
    with b0 Suc.prems have "entries_from bs (Suc b0) = (b', a', n') # ys"
      by (simp add: entries_from_step)
    moreover from Suc.hyps(2) have "d = length bs - Suc b0" by simp
    ultimately have "Suc b0 \<le> b'" using Suc.hyps(1) by blast
    then show ?thesis by simp
  next
    case (Cons x xs)
    with b0 Suc.prems show ?thesis
      by (auto simp add: entries_from_step)
  qed
qed

lemma entries_from_cong:
  "length bs' = length bs \<Longrightarrow> \<forall>i. b0 \<le> i \<and> i < length bs \<longrightarrow> bs' ! i = bs ! i \<Longrightarrow>
   entries_from bs' b0 = entries_from bs b0"
proof -
  assume len: "length bs' = length bs"
    and eq: "\<forall>i. b0 \<le> i \<and> i < length bs \<longrightarrow> bs' ! i = bs ! i"
  have m: "map (\<lambda>i. map (Pair i) (bs' ! i)) [b0..<length bs] =
      map (\<lambda>i. map (Pair i) (bs ! i)) [b0..<length bs]"
    by (rule map_cong) (use eq in auto)
  show ?thesis by (simp only: entries_from_def len m)
qed

lemma pinned_simps [simp]:
  "hash_buckets (pinned t a n) =
     map (chain_store a (n\<lparr>refcount := refcount n + 1\<rparr>)) (hash_buckets t)"
  "hash_buckets_len (pinned t a n) = hash_buckets_len t"
  "count (pinned t a n) = count t"
  "order (pinned t a n) = order t"
  "trace (pinned t a n) = trace t"
  "allocs (pinned t a n) = allocs t"
  by (simp_all add: pinned_def)

lemma pinned_as_store:
  assumes wf: "wf_table t" and b: "b < length (hash_buckets t)"
    and mem: "(a, n) \<in> set (hash_buckets t ! b)"
  shows "set_bucket b (chain_store a (n\<lparr>refcount := refcount n + 1\<rparr>) (hash_buckets t ! b)) t =
           pinned t a n"
proof -
  from mem have "a \<in> fst ` set (hash_buckets t ! b)" by force
  from store_state [OF wf_distinct [OF wf] b this] show ?thesis by (simp add: pinned_def)
qed

lemma unpin_restore:
  assumes wf: "wf_table t" and b: "b < length (hash_buckets t)"
    and mem: "(a, n) \<in> set (hash_buckets t ! b)"
  shows "map (chain_store a n) (map (chain_store a m) (hash_buckets t)) = hash_buckets t"
proof -
  have "map (chain_store a n) (map (chain_store a m) (hash_buckets t)) =
      map (\<lambda>c. chain_store a n (chain_store a m c)) (hash_buckets t)"
    by simp
  also have "\<dots> = map (\<lambda>c. c) (hash_buckets t)"
    by (rule map_cong [OF refl]) (rule chain_store_restore, rule only_content [OF wf b mem])
  finally show ?thesis by simp
qed

lemma unpin_swap:
  assumes wf: "wf_table t" and b: "b < length (hash_buckets t)"
    and mem: "(a, n) \<in> set (hash_buckets t ! b)" and ne: "a \<noteq> a'"
  shows "map (chain_store a n) (map (chain_store a' m') (map (chain_store a m) (hash_buckets t))) =
           map (chain_store a' m') (hash_buckets t)"
proof -
  have "map (chain_store a n) (map (chain_store a' m') (map (chain_store a m) (hash_buckets t))) =
      map (\<lambda>c. chain_store a n (chain_store a' m' (chain_store a m c))) (hash_buckets t)"
    by simp
  also have "\<dots> = map (chain_store a' m') (hash_buckets t)"
    by (rule map_cong [OF refl]) (rule chain_store_swap [OF only_content [OF wf b mem] ne])
  finally show ?thesis .
qed

lemma scan_fresh:
  assumes len: "unat (hash_buckets_len t) = length (hash_buckets t)"
    and live: "\<forall>i. b \<le> i \<and> i < length (hash_buckets t) \<longrightarrow>
                 (\<forall>(a, n)\<in>set (hash_buckets t ! i). 0 < refcount n)"
  shows "iter_scan t hn b False =
           Some (case entries_from (hash_buckets t) b of [] \<Rightarrow> None | x # xs \<Rightarrow> Some x)"
  using live
proof (induction "length (hash_buckets t) - b" arbitrary: b)
  case 0
  then have "length (hash_buckets t) \<le> b" by simp
  then show ?case using len by (subst iter_scan.simps) (simp add: entries_from_end)
next
  case (Suc d)
  then have b: "b < length (hash_buckets t)" by simp
  from Suc.prems b have lb: "\<forall>(a, n)\<in>set (hash_buckets t ! b). 0 < refcount n" by blast
  show ?case
  proof (cases "hash_buckets t ! b")
    case Nil
    from Suc.hyps(2) have "d = length (hash_buckets t) - Suc b" by simp
    moreover from Suc.prems
    have "\<forall>i. Suc b \<le> i \<and> i < length (hash_buckets t) \<longrightarrow>
        (\<forall>(a, n)\<in>set (hash_buckets t ! i). 0 < refcount n)"
      by (auto dest: Suc_leD)
    ultimately have "iter_scan t hn (Suc b) False =
        Some (case entries_from (hash_buckets t) (Suc b) of [] \<Rightarrow> None | x # xs \<Rightarrow> Some x)"
      by (rule Suc.hyps(1))
    with b Nil len show ?thesis
      by (subst iter_scan.simps) (simp add: entries_from_step)
  next
    case (Cons x xs)
    obtain a n where x: "x = (a, n)" by (cases x)
    with lb Cons have "0 < refcount n" by simp
    with b Cons x len show ?thesis
      by (subst iter_scan.simps) (simp add: entries_from_step)
  qed
qed

lemma scan_cont:
  assumes len: "unat (hash_buckets_len t) = length (hash_buckets t)"
    and b: "b < length (hash_buckets t)"
    and after: "chain_after a (hash_buckets t ! b) = Some rest"
    and live_rest: "\<forall>(a, n)\<in>set rest. 0 < refcount n"
    and live: "\<forall>i. Suc b \<le> i \<and> i < length (hash_buckets t) \<longrightarrow>
                 (\<forall>(a, n)\<in>set (hash_buckets t ! i). 0 < refcount n)"
  shows "iter_scan t (Some a) b True =
           Some (case map (Pair b) rest @ entries_from (hash_buckets t) (Suc b) of
                   [] \<Rightarrow> None | x # xs \<Rightarrow> Some x)"
proof (cases rest)
  case Nil
  with len b after scan_fresh [OF len live, of "Some a"] show ?thesis
    by (subst iter_scan.simps) simp
next
  case (Cons x xs)
  obtain a' n' where x: "x = (a', n')" by (cases x)
  with live_rest Cons have "0 < refcount n'" by simp
  with len b after Cons x show ?thesis
    by (subst iter_scan.simps) simp
qed

lemma scan_pinned:
  assumes wf: "wf_table t"
    and live: "\<forall>c\<in>set (hash_buckets t). \<forall>(a, n)\<in>set c. 0 < refcount n"
    and b: "b < length (hash_buckets t)"
    and mem: "(a, n) \<in> set (hash_buckets t ! b)"
    and after: "chain_after a (hash_buckets t ! b) = Some rest"
  shows "iter_scan (pinned t a n) (Some a) b True =
           Some (case map (Pair b) rest @ entries_from (hash_buckets t) (Suc b) of
                   [] \<Rightarrow> None | x # xs \<Rightarrow> Some x)"
proof -
  let ?bs = "hash_buckets t"
  let ?m = "n\<lparr>refcount := refcount n + 1\<rparr>"
  let ?P = "pinned t a n"
  have len: "unat (hash_buckets_len ?P) = length (hash_buckets ?P)"
    using wf by (simp add: wf_len)
  have bP: "b < length (hash_buckets ?P)" using b by simp
  have dc: "distinct (map fst (?bs ! b))" using wf b by (rule wf_chain_distinct)
  have afterP: "chain_after a (hash_buckets ?P ! b) = Some rest"
    using b by (simp add: chain_after_store [OF after dc])
  from after have sub: "set rest \<subseteq> set (?bs ! b)" by (rule chain_after_subset)
  have live_rest: "\<forall>(a, n)\<in>set rest. 0 < refcount n"
    using live sub b by (metis (no_types, lifting) nth_mem subsetD)
  have same: "hash_buckets ?P ! i = ?bs ! i" if i: "Suc b \<le> i \<and> i < length ?bs" for i
  proof -
    have "a \<notin> fst ` set (?bs ! i)"
    proof
      assume "a \<in> fst ` set (?bs ! i)"
      then obtain u where "(a, u) \<in> set (?bs ! i)" by auto
      from addr_unique [OF wf_distinct [OF wf] _ b this mem] i show False by simp
    qed
    with i show ?thesis by (simp add: chain_store_absent)
  qed
  have liveP: "\<forall>i. Suc b \<le> i \<and> i < length (hash_buckets ?P) \<longrightarrow>
      (\<forall>(a, n)\<in>set (hash_buckets ?P ! i). 0 < refcount n)"
  proof (intro allI impI)
    fix i assume i: "Suc b \<le> i \<and> i < length (hash_buckets ?P)"
    then have i': "Suc b \<le> i \<and> i < length ?bs" by simp
    then have "?bs ! i \<in> set ?bs" by simp
    with live have "\<forall>(a, n)\<in>set (?bs ! i). 0 < refcount n" by blast
    with same [OF i'] show "\<forall>(a, n)\<in>set (hash_buckets ?P ! i). 0 < refcount n" by simp
  qed
  have ent: "entries_from (hash_buckets ?P) (Suc b) = entries_from ?bs (Suc b)"
    by (rule entries_from_cong) (use same in simp_all)
  from scan_cont [OF len bP afterP live_rest liveP] ent show ?thesis by simp
qed

lemma scan_false_found:
  "iter_scan t hn b0 False = Some (Some (b', a', n')) \<Longrightarrow>
   b0 \<le> b' \<and> b' < unat (hash_buckets_len t) \<and> (a', n') \<in> set (hash_buckets t ! b')"
proof (induction "unat (hash_buckets_len t) - b0" arbitrary: b0)
  case 0
  then show ?case by (subst (asm) iter_scan.simps) simp
next
  case (Suc d)
  then have b0: "b0 < unat (hash_buckets_len t)" by simp
  show ?case
  proof (cases "first_live (hash_buckets t ! b0)")
    case None
    with Suc.prems b0 have "iter_scan t hn (Suc b0) False = Some (Some (b', a', n'))"
      by (subst (asm) iter_scan.simps) simp
    moreover from Suc.hyps(2) have "d = unat (hash_buckets_len t) - Suc b0" by simp
    ultimately have "Suc b0 \<le> b' \<and> b' < unat (hash_buckets_len t) \<and>
        (a', n') \<in> set (hash_buckets t ! b')"
      using Suc.hyps(1) by blast
    then show ?thesis by simp
  next
    case (Some x)
    obtain a n where x: "x = (a, n)" by (cases x)
    with Some Suc.prems b0 have "b' = b0" "a' = a" "n' = n"
      by (subst (asm) iter_scan.simps, simp)+
    with Some x b0 show ?thesis by (simp add: first_live_mem)
  qed
qed

lemma scan_false_total: "\<exists>r. iter_scan t hn b0 False = Some r"
proof (induction "unat (hash_buckets_len t) - b0" arbitrary: b0)
  case 0
  then show ?case by (subst iter_scan.simps) simp
next
  case (Suc d)
  then have b0: "b0 < unat (hash_buckets_len t)" by simp
  from Suc.hyps(2) have "d = unat (hash_buckets_len t) - Suc b0" by simp
  then have "\<exists>r. iter_scan t hn (Suc b0) False = Some r" by (rule Suc.hyps(1))
  with b0 show ?case
    by (subst iter_scan.simps) (simp split: option.splits)
qed

lemma scan_true_found:
  assumes b: "b < unat (hash_buckets_len t)"
    and after: "chain_after a (hash_buckets t ! b) = Some rest"
  shows "\<exists>found. iter_scan t (Some a) b True = Some found \<and>
           (\<forall>b' a' n'. found = Some (b', a', n') \<longrightarrow>
              (b' = b \<and> (a', n') \<in> set rest) \<or>
              (b < b' \<and> b' < unat (hash_buckets_len t) \<and> (a', n') \<in> set (hash_buckets t ! b')))"
proof (cases "first_live rest")
  case None
  from scan_false_total [of t "Some a" "Suc b"] obtain r where
    r: "iter_scan t (Some a) (Suc b) False = Some r" by blast
  with b after None have "iter_scan t (Some a) b True = Some r"
    by (subst iter_scan.simps) simp
  moreover have "b < b' \<and> b' < unat (hash_buckets_len t) \<and> (a', n') \<in> set (hash_buckets t ! b')"
    if "r = Some (b', a', n')" for b' a' n'
    using scan_false_found [of t "Some a" "Suc b" b' a' n'] r that by simp
  ultimately show ?thesis by blast
next
  case (Some x)
  obtain a' n' where x: "x = (a', n')" by (cases x)
  with b after Some have "iter_scan t (Some a) b True = Some (Some (b, a', n'))"
    by (subst iter_scan.simps) simp
  moreover from Some x have "(a', n') \<in> set rest" by (simp add: first_live_mem)
  ultimately show ?thesis by blast
qed

lemma iter_next_end:
  assumes wf: "wf_table t"
    and live: "\<forall>c\<in>set (hash_buckets t). \<forall>(a, n)\<in>set c. 0 < refcount n"
    and b: "b < length (hash_buckets t)"
    and mem: "(a, n) \<in> set (hash_buckets t ! b)"
    and after: "chain_after a (hash_buckets t ! b) = Some rest"
    and nil: "map (Pair b) rest @ entries_from (hash_buckets t) (Suc b) = []"
  shows "hashtable_iter_next (pinned t a n) \<lparr>node = Some a, bucket = of_nat b\<rparr> =
           Some (None, \<lparr>node = Some a, bucket = of_nat b\<rparr>, t)"
proof -
  let ?bs = "hash_buckets t"
  let ?m = "n\<lparr>refcount := refcount n + 1\<rparr>"
  let ?P = "pinned t a n"
  have ub: "unat (of_nat b :: 32 word) = b" using wf b by (rule unat_bucket_index)
  have scan: "iter_scan ?P (Some a) b True = Some None"
    using scan_pinned [OF wf live b mem after] nil by simp
  from mem have ain: "a \<in> fst ` set (?bs ! b)" by force
  have old: "map_of (hash_buckets ?P ! b) a = Some ?m"
    using b ain by (simp add: map_of_chain_store_same)
  from live mem b have pos: "0 < refcount n"
    by (metis (no_types, lifting) case_prodD nth_mem)
  have m1: "?m\<lparr>refcount := refcount ?m - 1\<rparr> = n" by simp
  have dP: "distinct (map fst (concat (hash_buckets ?P)))"
    using wf_distinct [OF wf] by simp
  have ainP: "a \<in> fst ` set (hash_buckets ?P ! b)"
    using b ain by simp
  have "hashtable_node_deref ?P b a ?m =
      set_bucket b (chain_store a n (hash_buckets ?P ! b)) ?P"
    using pos by (simp add: deref_keep)
  also have "\<dots> = ?P\<lparr>hash_buckets := map (chain_store a n) (hash_buckets ?P)\<rparr>"
    using b by (intro store_state [OF dP _ ainP]) simp
  also have "\<dots> = t"
    using unpin_restore [OF wf b mem, of ?m] by (simp add: pinned_def)
  finally have deref: "hashtable_node_deref ?P b a ?m = t" .
  show ?thesis
    using old by (simp add: hashtable_iter_next_def ub scan deref)
qed

lemma remaining_head:
  assumes wf: "wf_table t"
    and b: "b < length (hash_buckets t)"
    and mem: "(a, n) \<in> set (hash_buckets t ! b)"
    and after: "chain_after a (hash_buckets t ! b) = Some rest"
    and ys: "map (Pair b) rest @ entries_from (hash_buckets t) (Suc b) = (b', a', n') # ys'"
  shows "b' < length (hash_buckets t) \<and> (a', n') \<in> set (hash_buckets t ! b') \<and> a' \<noteq> a \<and>
         (\<exists>rest'. chain_after a' (hash_buckets t ! b') = Some rest' \<and>
                   ys' = map (Pair b') rest' @ entries_from (hash_buckets t) (Suc b'))"
proof (cases rest)
  case Nil
  with ys have e: "entries_from (hash_buckets t) (Suc b) = (b', a', n') # ys'" by simp
  from entries_from_head [OF e] obtain rest' where
    b': "b' < length (hash_buckets t)" and hd: "hash_buckets t ! b' = (a', n') # rest'"
    and ys': "ys' = map (Pair b') rest' @ entries_from (hash_buckets t) (Suc b')" by blast
  from entries_from_head_le [OF e] have lt: "b < b'" by simp
  from hd have mem': "(a', n') \<in> set (hash_buckets t ! b')" by simp
  have "a' \<noteq> a"
  proof
    assume "a' = a"
    with mem' have "(a, n') \<in> set (hash_buckets t ! b')" by simp
    from addr_unique [OF wf_distinct [OF wf] b' b this mem] lt show False by simp
  qed
  moreover from hd have "chain_after a' (hash_buckets t ! b') = Some rest'" by simp
  ultimately show ?thesis using b' mem' ys' by blast
next
  case (Cons x xs)
  with ys have x: "x = (a', n')" and bb: "b' = b"
    and ys': "ys' = map (Pair b) xs @ entries_from (hash_buckets t) (Suc b)" by auto
  have dc: "distinct (map fst (hash_buckets t ! b))" using wf b by (rule wf_chain_distinct)
  from after Cons x have after': "chain_after a (hash_buckets t ! b) = Some ((a', n') # xs)" by simp
  from chain_after_subset [OF after'] have mem': "(a', n') \<in> set (hash_buckets t ! b)" by auto
  from chain_after_notin [OF after' dc] have "a' \<noteq> a" by auto
  moreover from chain_after_next [OF after' dc]
  have "chain_after a' (hash_buckets t ! b) = Some xs" .
  ultimately show ?thesis using b bb mem' ys' by blast
qed

lemma iter_next_step:
  assumes wf: "wf_table t"
    and live: "\<forall>c\<in>set (hash_buckets t). \<forall>(a, n)\<in>set c. 0 < refcount n"
    and b: "b < length (hash_buckets t)"
    and mem: "(a, n) \<in> set (hash_buckets t ! b)"
    and after: "chain_after a (hash_buckets t ! b) = Some rest"
    and ys: "map (Pair b) rest @ entries_from (hash_buckets t) (Suc b) = (b', a', n') # ys'"
  shows "hashtable_iter_next (pinned t a n) \<lparr>node = Some a, bucket = of_nat b\<rparr> =
           Some (Some (key n', node_value n'), \<lparr>node = Some a', bucket = of_nat b'\<rparr>,
                 pinned t a' n')"
proof -
  let ?bs = "hash_buckets t"
  let ?m = "n\<lparr>refcount := refcount n + 1\<rparr>"
  let ?m' = "n'\<lparr>refcount := refcount n' + 1\<rparr>"
  let ?P = "pinned t a n"
  from remaining_head [OF wf b mem after ys]
  have b': "b' < length ?bs" and mem': "(a', n') \<in> set (?bs ! b')" and ne: "a' \<noteq> a" by simp_all
  have ub: "unat (of_nat b :: 32 word) = b" using wf b by (rule unat_bucket_index)
  have scan: "iter_scan ?P (Some a) b True = Some (Some (b', a', n'))"
    using scan_pinned [OF wf live b mem after] ys by simp
  from mem have ain: "a \<in> fst ` set (?bs ! b)" by force
  from mem' have ain': "a' \<in> fst ` set (?bs ! b')" by force
  from live mem b have pos: "0 < refcount n"
    by (metis (no_types, lifting) case_prodD nth_mem)
  have dP: "distinct (map fst (concat (hash_buckets ?P)))"
    using wf_distinct [OF wf] by simp
  have ainP': "a' \<in> fst ` set (hash_buckets ?P ! b')" using b' ain' by simp
  let ?t1 = "set_bucket b' (chain_store a' ?m' (hash_buckets ?P ! b')) ?P"
  have t1: "?t1 = ?P\<lparr>hash_buckets := map (chain_store a' ?m') (hash_buckets ?P)\<rparr>"
    using b' by (intro store_state [OF dP _ ainP']) simp
  have old: "map_of (hash_buckets ?t1 ! b) a = Some ?m"
    using b ain ne
    by (simp only: t1) (simp add: map_of_chain_store_other map_of_chain_store_same)
  have d1: "distinct (map fst (concat (hash_buckets ?t1)))"
    using wf_distinct [OF wf] by (simp only: t1) (simp add: concat_fst_cong)
  have ain1: "a \<in> fst ` set (hash_buckets ?t1 ! b)"
    using b ain by (simp only: t1) simp
  have b1: "b < length (hash_buckets ?t1)" using b by (simp only: t1) simp
  have "hashtable_node_deref ?t1 b a ?m =
      set_bucket b (chain_store a n (hash_buckets ?t1 ! b)) ?t1"
    using pos by (simp add: deref_keep)
  also have "\<dots> = ?t1\<lparr>hash_buckets := map (chain_store a n) (hash_buckets ?t1)\<rparr>"
    by (rule store_state [OF d1 b1 ain1])
  also have "\<dots> = pinned t a' n'"
    using unpin_swap [OF wf b mem ne [symmetric], of ?m' ?m]
    by (simp only: t1) (simp add: pinned_def)
  finally have deref: "hashtable_node_deref ?t1 b a ?m = pinned t a' n'" .
  show ?thesis
    using old deref by (simp add: hashtable_iter_next_def ub scan)
qed

lemma iter_next_start:
  assumes wf: "wf_table t"
    and live: "\<forall>c\<in>set (hash_buckets t). \<forall>(a, n)\<in>set c. 0 < refcount n"
  shows "hashtable_iter_next t \<lparr>node = None, bucket = 0\<rparr> =
           (case entries_from (hash_buckets t) 0 of
              [] \<Rightarrow> Some (None, \<lparr>node = None, bucket = 0\<rparr>, t)
            | (b', a', n') # ys' \<Rightarrow>
                Some (Some (key n', node_value n'), \<lparr>node = Some a', bucket = of_nat b'\<rparr>,
                      pinned t a' n'))"
proof -
  have live': "\<forall>i. 0 \<le> i \<and> i < length (hash_buckets t) \<longrightarrow>
      (\<forall>(a, n)\<in>set (hash_buckets t ! i). 0 < refcount n)"
    using live by (metis nth_mem)
  note scan = scan_fresh [OF wf_len [OF wf] live', of None]
  show ?thesis
  proof (cases "entries_from (hash_buckets t) 0")
    case Nil
    with scan show ?thesis by (simp add: hashtable_iter_next_def)
  next
    case (Cons x ys')
    obtain b' a' n' where x: "x = (b', a', n')" by (cases x)
    from entries_from_head [OF Cons [unfolded x]]
    have b': "b' < length (hash_buckets t)" and mem': "(a', n') \<in> set (hash_buckets t ! b')"
      by auto
    from scan Cons x pinned_as_store [OF wf b' mem'] show ?thesis
      by (simp add: hashtable_iter_next_def)
  qed
qed

lemma iter_collect_pinned:
  assumes wf: "wf_table t"
    and live: "\<forall>c\<in>set (hash_buckets t). \<forall>(a, n)\<in>set c. 0 < refcount n"
  shows "b < length (hash_buckets t) \<Longrightarrow> (a, n) \<in> set (hash_buckets t ! b) \<Longrightarrow>
         chain_after a (hash_buckets t ! b) = Some rest \<Longrightarrow>
         ys = map (Pair b) rest @ entries_from (hash_buckets t) (Suc b) \<Longrightarrow>
         length ys < fuel \<Longrightarrow>
         \<exists>hi'. iter_collect fuel (pinned t a n) \<lparr>node = Some a, bucket = of_nat b\<rparr> =
                  Some (map (\<lambda>(b, a, n). key n) ys, hi', t)"
proof (induction ys arbitrary: b a n rest fuel)
  case Nil
  then obtain f where f: "fuel = Suc f" by (cases fuel) auto
  from iter_next_end [OF wf live Nil(1) Nil(2) Nil(3) Nil(4) [symmetric]]
  show ?case by (simp add: f)
next
  case (Cons y ys)
  obtain b' a' n' where y: "y = (b', a', n')" by (cases y)
  from Cons.prems(5) obtain f where f: "fuel = Suc f" and lf: "length ys < f"
    by (cases fuel) auto
  have eq: "map (Pair b) rest @ entries_from (hash_buckets t) (Suc b) = (b', a', n') # ys"
    using Cons.prems(4) y by simp
  from remaining_head [OF wf Cons.prems(1) Cons.prems(2) Cons.prems(3) eq]
  obtain rest' where b': "b' < length (hash_buckets t)"
    and mem': "(a', n') \<in> set (hash_buckets t ! b')"
    and after': "chain_after a' (hash_buckets t ! b') = Some rest'"
    and ys: "ys = map (Pair b') rest' @ entries_from (hash_buckets t) (Suc b')" by blast
  from Cons.IH [OF b' mem' after' ys lf] obtain hi' where
    "iter_collect f (pinned t a' n') \<lparr>node = Some a', bucket = of_nat b'\<rparr> =
       Some (map (\<lambda>(b, a, n). key n) ys, hi', t)" by blast
  with iter_next_step [OF wf live Cons.prems(1) Cons.prems(2) Cons.prems(3) eq]
  show ?case by (simp add: f y)
qed

lemma iter_collect_fresh:
  assumes wf: "wf_table t"
    and live: "\<forall>c\<in>set (hash_buckets t). \<forall>(a, n)\<in>set c. 0 < refcount n"
    and fuel: "length (concat (hash_buckets t)) < fuel"
  shows "\<exists>hi'. iter_collect fuel t \<lparr>node = None, bucket = 0\<rparr> =
           Some (map (\<lambda>(a, n). key n) (concat (hash_buckets t)), hi', t)"
proof -
  let ?E = "entries_from (hash_buckets t) 0"
  have keys: "map (\<lambda>(a, n). key n) (concat (hash_buckets t)) = map (\<lambda>(b, a, n). key n) ?E"
    by (simp add: entries_from_zero [symmetric] comp_def case_prod_unfold)
  have lenE: "length ?E = length (concat (hash_buckets t))"
    using entries_from_zero [of "hash_buckets t"] by (metis length_map)
  from fuel obtain f where f: "fuel = Suc f" and lf: "length (concat (hash_buckets t)) \<le> f"
    by (cases fuel) auto
  show ?thesis
  proof (cases ?E)
    case Nil
    with iter_next_start [OF wf live] show ?thesis by (simp add: f keys)
  next
    case (Cons x ys)
    obtain b' a' n' where x: "x = (b', a', n')" by (cases x)
    from entries_from_head [OF Cons [unfolded x]] obtain rest' where
      b': "b' < length (hash_buckets t)" and hd: "hash_buckets t ! b' = (a', n') # rest'"
      and ys: "ys = map (Pair b') rest' @ entries_from (hash_buckets t) (Suc b')" by blast
    from hd have mem': "(a', n') \<in> set (hash_buckets t ! b')"
      and after': "chain_after a' (hash_buckets t ! b') = Some rest'" by simp_all
    from lenE Cons lf have "length ys < f" by simp
    from iter_collect_pinned [OF wf live b' mem' after' ys this] obtain hi' where
      "iter_collect f (pinned t a' n') \<lparr>node = Some a', bucket = of_nat b'\<rparr> =
         Some (map (\<lambda>(b, a, n). key n) ys, hi', t)" by blast
    with iter_next_start [OF wf live] Cons x show ?thesis by (simp add: f keys)
  qed
qed

subsection \<open>The operations keep the invariant\<close>

text \<open>Creation establishes \<open>wf_table\<close>; insertion, removal, registration and iteration keep it.\<close>

lemma wf_cong:
  "order t' = order t \<Longrightarrow> hash_buckets_len t' = hash_buckets_len t \<Longrightarrow>
   hash_buckets t' = hash_buckets t \<Longrightarrow> heap_top t' = heap_top t \<Longrightarrow>
   wf_table t' = wf_table t"
  by (simp add: wf_table_def)

lemma wf_same_table: "same_table t t' \<Longrightarrow> wf_table t' = wf_table t"
  by (rule wf_cong) (simp_all add: same_table_def)

lemma wf_bucket_update:
  assumes wf: "wf_table t" and b: "b < length (hash_buckets t)"
    and sub: "\<forall>(x, y)\<in>set c. unat (qb_hash_string (key y) (order t)) = b \<and> x < heap_top t"
    and keys: "distinct (map (\<lambda>(a, n). key n) c)"
    and addrs: "distinct (map fst (concat (take b (hash_buckets t)) @ c @
                  concat (drop (Suc b) (hash_buckets t))))"
  shows "wf_table (set_bucket b c t)"
proof -
  let ?bs = "hash_buckets t"
  have place: "\<forall>i<length ?bs. \<forall>(x, y)\<in>set (?bs[b := c] ! i).
      unat (qb_hash_string (key y) (order t)) = i \<and> x < heap_top t"
  proof (intro allI impI)
    fix i assume i: "i < length ?bs"
    show "\<forall>(x, y)\<in>set (?bs[b := c] ! i).
        unat (qb_hash_string (key y) (order t)) = i \<and> x < heap_top t"
    proof (cases "i = b")
      case True
      with b sub show ?thesis by simp
    next
      case False
      with wf i show ?thesis by (simp add: wf_table_def)
    qed
  qed
  have dk: "\<forall>i<length ?bs. distinct (map (\<lambda>(a, n). key n) (?bs[b := c] ! i))"
  proof (intro allI impI)
    fix i assume i: "i < length ?bs"
    show "distinct (map (\<lambda>(a, n). key n) (?bs[b := c] ! i))"
    proof (cases "i = b")
      case True
      with b keys show ?thesis by simp
    next
      case False
      with wf i show ?thesis by (simp add: wf_table_def)
    qed
  qed
  from addrs b have "distinct (map fst (concat (?bs[b := c])))"
    by (simp only: concat_update)
  with wf place dk show ?thesis
    by (simp add: wf_table_def)
qed

lemma wf_store:
  assumes wf: "wf_table t" and b: "b < length (hash_buckets t)"
    and mem: "(a, n) \<in> set (hash_buckets t ! b)" and km: "key m = key n"
  shows "wf_table (set_bucket b (chain_store a m (hash_buckets t ! b)) t)"
proof (rule wf_bucket_update [OF wf b])
  let ?c = "hash_buckets t ! b"
  have dc: "distinct (map fst ?c)" using wf b by (rule wf_chain_distinct)
  from wf b have old: "\<forall>(x, y)\<in>set ?c. unat (qb_hash_string (key y) (order t)) = b \<and> x < heap_top t"
    by (simp add: wf_table_def)
  show "\<forall>(x, y)\<in>set (chain_store a m ?c).
      unat (qb_hash_string (key y) (order t)) = b \<and> x < heap_top t"
  proof (clarify)
    fix x y assume "(x, y) \<in> set (chain_store a m ?c)"
    then consider "x = a" "y = m" | "(x, y) \<in> set ?c"
      by (auto simp add: chain_store_def split: if_splits)
    then show "unat (qb_hash_string (key y) (order t)) = b \<and> x < heap_top t"
    proof cases
      case 1
      with old mem km show ?thesis by auto
    next
      case 2
      with old show ?thesis by auto
    qed
  qed
  show "distinct (map (\<lambda>(a, n). key n) (chain_store a m ?c))"
    using wf_keys_chain [OF wf b] by (simp add: keys_chain_store [OF dc mem km])
  from wf_distinct [OF wf] have "distinct (map fst (concat (take b (hash_buckets t)) @ ?c @
      concat (drop (Suc b) (hash_buckets t))))"
    by (subst (asm) concat_nth [OF b])
  then show "distinct (map fst (concat (take b (hash_buckets t)) @ chain_store a m ?c @
      concat (drop (Suc b) (hash_buckets t))))"
    by simp
qed

lemma wf_del:
  assumes wf: "wf_table t" and b: "b < length (hash_buckets t)"
  shows "wf_table (set_bucket b (chain_del a (hash_buckets t ! b)) t)"
proof (rule wf_bucket_update [OF wf b])
  let ?c = "hash_buckets t ! b"
  from wf b have old: "\<forall>(x, y)\<in>set ?c. unat (qb_hash_string (key y) (order t)) = b \<and> x < heap_top t"
    by (simp add: wf_table_def)
  then show "\<forall>(x, y)\<in>set (chain_del a ?c).
      unat (qb_hash_string (key y) (order t)) = b \<and> x < heap_top t"
    by (auto simp add: chain_del_def)
  show "distinct (map (\<lambda>(a, n). key n) (chain_del a ?c))"
    using wf_keys_chain [OF wf b] by (simp add: chain_del_def distinct_map_filter)
  from wf_distinct [OF wf] have "distinct (map fst (concat (take b (hash_buckets t)) @ ?c @
      concat (drop (Suc b) (hash_buckets t))))"
    by (subst (asm) concat_nth [OF b])
  then show "distinct (map fst (concat (take b (hash_buckets t)) @ chain_del a ?c @
      concat (drop (Suc b) (hash_buckets t))))"
    unfolding chain_del_def by (rule distinct_mid_filter)
qed

lemma wf_trace [simp]: "wf_table (t\<lparr>trace := tr\<rparr>) = wf_table t"
  by (rule wf_cong) simp_all

lemma wf_count [simp]: "wf_table (t\<lparr>count := c\<rparr>) = wf_table t"
  by (rule wf_cong) simp_all

lemma wf_notify [simp]: "wf_table (hashtable_notify nl k old v t) = wf_table t"
  by (simp add: hashtable_notify_def split: option.splits)

lemma wf_copy_notify_list: "wf_table (snd (copy_notify_list t n ev)) = wf_table t"
  using copy_notify_list_frame by (rule wf_same_table)

lemma wf_malloc: "wf_table (snd (malloc t)) = wf_table t"
  using malloc_frame by (rule wf_same_table)

lemma wf_destroy:
  assumes wf: "wf_table t" and b: "b < length (hash_buckets t)"
  shows "wf_table (hashtable_node_destroy t b a n)"
proof -
  obtain nl t1 where c: "copy_notify_list t n QB_MAP_NOTIFY_DELETED = (nl, t1)"
    by (cases "copy_notify_list t n QB_MAP_NOTIFY_DELETED")
  with copy_notify_list_frame [of t n QB_MAP_NOTIFY_DELETED] have s: "same_table t t1" by simp
  let ?t2 = "hashtable_notify nl (key n) (node_value n) NULL t1"
  from wf s have wf2: "wf_table ?t2" by (simp add: wf_same_table)
  from s b have b2: "b < length (hash_buckets ?t2)"
    by (simp add: same_table_def hashtable_notify_def split: option.splits)
  from wf_del [OF wf2 b2, of a] c show ?thesis
    by (simp add: hashtable_node_destroy_def Let_def)
qed

lemma wf_deref:
  assumes wf: "wf_table t" and b: "b < length (hash_buckets t)"
    and mem: "(a, n) \<in> set (hash_buckets t ! b)"
  shows "wf_table (hashtable_node_deref t b a n)"
proof -
  let ?n' = "n\<lparr>refcount := refcount n - 1\<rparr>"
  let ?t' = "set_bucket b (chain_store a ?n' (hash_buckets t ! b)) t"
  have wf': "wf_table ?t'" by (rule wf_store [OF wf b mem]) simp
  have b': "b < length (hash_buckets ?t')" using b by simp
  from wf' wf_destroy [OF wf' b', of a ?n'] show ?thesis
    by (simp add: hashtable_node_deref_def Let_def)
qed

lemma wf_rm: "wf_table t \<Longrightarrow> wf_table (snd (hashtable_rm t k))"
proof -
  assume wf: "wf_table t"
  let ?b = "unat (qb_hash_string k (order t))"
  from wf have b: "?b < length (hash_buckets t)" by (rule hash_in_range)
  show ?thesis
  proof (cases "chain_find k (hash_buckets t ! ?b)")
    case None
    with wf show ?thesis by (simp add: rm_absent)
  next
    case (Some x)
    obtain a n where x: "x = (a, n)" by (cases x)
    with Some have mem: "(a, n) \<in> set (hash_buckets t ! ?b)" by (simp add: chain_find_Some_mem)
    from Some x wf_deref [OF wf b mem] show ?thesis by (simp add: rm_found)
  qed
qed

lemma wf_append:
  assumes wf: "wf_table t" and absent: "chain_find k (hash_buckets t ! unat (qb_hash_string k (order t))) = None"
    and kn: "key n = k"
  shows "wf_table ((set_bucket (unat (qb_hash_string k (order t)))
           (hash_buckets t ! unat (qb_hash_string k (order t)) @ [(heap_top t, n)]) t)
             \<lparr>heap_top := heap_top t + 1\<rparr>)"
proof -
  let ?b = "unat (qb_hash_string k (order t))"
  let ?c = "hash_buckets t ! ?b"
  let ?t' = "t\<lparr>heap_top := heap_top t + 1\<rparr>"
  from wf have b: "?b < length (hash_buckets t)" by (rule hash_in_range)
  have wf': "wf_table ?t'" using wf by (fastforce simp add: wf_table_def)
  have b': "?b < length (hash_buckets ?t')" using b by simp
  from wf b have old: "\<forall>(x, y)\<in>set ?c. unat (qb_hash_string (key y) (order t)) = ?b \<and> x < heap_top t"
    by (simp add: wf_table_def)
  have fresh: "heap_top t \<notin> fst ` set (concat (hash_buckets t))"
  proof
    assume "heap_top t \<in> fst ` set (concat (hash_buckets t))"
    then obtain c y where "c \<in> set (hash_buckets t)" "(heap_top t, y) \<in> set c" by auto
    then obtain i where "i < length (hash_buckets t)" "(heap_top t, y) \<in> set (hash_buckets t ! i)"
      by (auto simp: in_set_conv_nth)
    with wf show False by (fastforce simp add: wf_table_def)
  qed
  have place: "\<forall>(x, y)\<in>set (?c @ [(heap_top t, n)]).
      unat (qb_hash_string (key y) (order ?t')) = ?b \<and> x < heap_top ?t'"
    using old kn by auto
  from absent have "k \<notin> set (map (\<lambda>(a, n). key n) ?c)" using chain_find_None by blast
  with wf_keys_chain [OF wf b] kn
  have keys: "distinct (map (\<lambda>(a, n). key n) (?c @ [(heap_top t, n)]))"
    by simp
  from wf_distinct [OF wf] have d: "distinct (map fst (concat (take ?b (hash_buckets t)) @ ?c @
      concat (drop (Suc ?b) (hash_buckets t))))"
    by (subst (asm) concat_nth [OF b])
  from fresh have f: "heap_top t \<notin> fst ` set (concat (take ?b (hash_buckets t)) @ ?c @
      concat (drop (Suc ?b) (hash_buckets t)))"
    by (subst (asm) concat_nth [OF b])
  from d f have addrs: "distinct (map fst (concat (take ?b (hash_buckets ?t')) @
      (?c @ [(heap_top t, n)]) @ concat (drop (Suc ?b) (hash_buckets ?t'))))"
    by (simp add: image_Un)
  have "wf_table (set_bucket ?b (?c @ [(heap_top t, n)]) ?t')"
    using place keys addrs by (rule wf_bucket_update [OF wf' b'])
  moreover have "wf_table ((set_bucket ?b (?c @ [(heap_top t, n)]) t)\<lparr>heap_top := heap_top t + 1\<rparr>) =
      wf_table (set_bucket ?b (?c @ [(heap_top t, n)]) ?t')"
    by (rule wf_cong) (simp_all add: set_bucket_def)
  ultimately show ?thesis by (simp only:)
qed

lemma wf_put: "wf_table t \<Longrightarrow> wf_table (hashtable_put t k v)"
proof -
  assume wf: "wf_table t"
  let ?b = "unat (qb_hash_string k (order t))"
  let ?c = "hash_buckets t ! ?b"
  from wf have b: "?b < length (hash_buckets t)" by (rule hash_in_range)
  show ?thesis
  proof (cases "chain_find k ?c")
    case None
    obtain ok t1 where m: "malloc t = (ok, t1)" by (cases "malloc t")
    with malloc_frame [of t] have s: "same_table t t1" by simp
    show ?thesis
    proof (cases ok)
      case False
      have "wf_table (t1\<lparr>errno := ENOMEM\<rparr>) = wf_table t1" by (rule wf_cong) simp_all
      with wf s None m False show ?thesis
        by (simp add: hashtable_put_def wf_same_table)
    next
      case True
      let ?nd = "\<lparr>key = k, node_value = v, refcount = 1, node_notifier_head = []\<rparr>"
      let ?t3 = "set_bucket ?b (hash_buckets t1 ! ?b @ [(heap_top t1, ?nd)])
                   (t1\<lparr>heap_top := heap_top t1 + 1, count := count t1 + 1\<rparr>)"
      from wf_append [OF wf None, of ?nd]
      have "wf_table ((set_bucket ?b (?c @ [(heap_top t, ?nd)]) t)\<lparr>heap_top := heap_top t + 1\<rparr>)"
        by simp
      moreover have "wf_table ?t3 =
          wf_table ((set_bucket ?b (?c @ [(heap_top t, ?nd)]) t)\<lparr>heap_top := heap_top t + 1\<rparr>)"
        using s by (intro wf_cong) (simp_all add: same_table_def set_bucket_def)
      ultimately have wf3: "wf_table ?t3" by (simp only:)
      obtain nl t4 where c: "copy_notify_list ?t3 ?nd QB_MAP_NOTIFY_INSERTED = (nl, t4)"
        by (cases "copy_notify_list ?t3 ?nd QB_MAP_NOTIFY_INSERTED")
      with wf_copy_notify_list [of ?t3 ?nd QB_MAP_NOTIFY_INSERTED] wf3 have "wf_table t4" by simp
      with None m True c s show ?thesis
        by (simp add: hashtable_put_def Let_def same_table_def)
    qed
  next
    case (Some x)
    obtain a n where x: "x = (a, n)" by (cases x)
    with Some have mem: "(a, n) \<in> set ?c" and kn: "key n = k"
      by (simp_all add: chain_find_Some_mem)
    let ?n' = "n\<lparr>key := k, node_value := v\<rparr>"
    let ?t1 = "set_bucket ?b (chain_store a ?n' ?c) t"
    have wf1: "wf_table ?t1" by (rule wf_store [OF wf b mem]) (simp add: kn)
    obtain nl t2 where c: "copy_notify_list ?t1 ?n' QB_MAP_NOTIFY_REPLACED = (nl, t2)"
      by (cases "copy_notify_list ?t1 ?n' QB_MAP_NOTIFY_REPLACED")
    with wf_copy_notify_list [of ?t1 ?n' QB_MAP_NOTIFY_REPLACED] wf1 have "wf_table t2" by simp
    with Some x c show ?thesis
      by (simp add: hashtable_put_def Let_def)
  qed
qed

lemma wf_notify_add: "wf_table t \<Longrightarrow> wf_table (snd (hashtable_notify_add t k fn ev ud))"
proof -
  assume wf: "wf_table t"
  show ?thesis
  proof (cases "notify_head t k")
    case None
    with wf show ?thesis by (simp add: hashtable_notify_add_def)
  next
    case (Some head)
    obtain ok t1 where m: "malloc t = (ok, t1)" by (cases "malloc t")
    with malloc_frame [of t] have s: "same_table t t1" by simp
    with wf have wf1: "wf_table t1" by (simp add: wf_same_table)
    have "wf_table (head_store head l t1)" for l
    proof (cases head)
      case Table_Head
      have "wf_table (t1\<lparr>notifier_head := l\<rparr>) = wf_table t1" by (rule wf_cong) simp_all
      with wf1 Table_Head show ?thesis by simp
    next
      case (Node_Head b a n)
      with Some obtain k' where k: "k = Some k'" and look: "hashtable_lookup t k' = Some (a, n)"
        and bb: "b = unat (qb_hash_string k' (order t))"
        by (auto simp add: notify_head_def split: option.splits)
      from wf bb have b: "b < length (hash_buckets t)" by (simp add: hash_in_range)
      from look bb have mem: "(a, n) \<in> set (hash_buckets t ! b)"
        by (simp add: hashtable_lookup_def chain_find_Some_mem)
      from s b mem have b1: "b < length (hash_buckets t1)" and mem1: "(a, n) \<in> set (hash_buckets t1 ! b)"
        by (simp_all add: same_table_def)
      from wf_store [OF wf1 b1 mem1, of "n\<lparr>node_notifier_head := l\<rparr>"] Node_Head
      show ?thesis by simp
    qed
    with wf wf1 Some m show ?thesis
      by (simp add: hashtable_notify_add_def Let_def split: bool.splits)
  qed
qed

lemma wf_iter_next:
  assumes wf: "wf_table t" and nxt: "hashtable_iter_next t hi = Some (r, hi', t')"
    and cursor: "unat (bucket hi) < length (hash_buckets t)"
  shows "wf_table t'"
proof -
  from nxt obtain found where scan: "iter_scan t (node hi) (unat (bucket hi)) (node hi \<noteq> None) = Some found"
    by (auto simp add: hashtable_iter_next_def split: option.splits)
  let ?t1 = "case found of None \<Rightarrow> t
             | Some (b, a, n) \<Rightarrow>
                 set_bucket b (chain_store a (n\<lparr>refcount := refcount n + 1\<rparr>) (hash_buckets t ! b)) t"
  have wf1: "wf_table ?t1"
  proof (cases found)
    case None
    with wf show ?thesis by simp
  next
    case (Some x)
    obtain b a n where x: "x = (b, a, n)" by (cases x)
    have loc: "b < length (hash_buckets t) \<and> (a, n) \<in> set (hash_buckets t ! b)"
    proof (cases "node hi")
      case None
      with scan Some x scan_false_found [of t None "unat (bucket hi)" b a n] wf
      show ?thesis by (simp add: wf_len)
    next
      case (Some old)
      show ?thesis
      proof (cases "unat (bucket hi) < unat (hash_buckets_len t)")
        case False
        with scan \<open>found = Some x\<close> show ?thesis by (subst (asm) iter_scan.simps) simp
      next
        case True
        with scan Some obtain rest where
          after: "chain_after old (hash_buckets t ! unat (bucket hi)) = Some rest"
          by (subst (asm) iter_scan.simps) (auto split: option.splits)
        from scan_true_found [OF True after] scan Some \<open>found = Some x\<close> x
        have "(b = unat (bucket hi) \<and> (a, n) \<in> set rest) \<or>
          (unat (bucket hi) < b \<and> b < unat (hash_buckets_len t) \<and> (a, n) \<in> set (hash_buckets t ! b))"
          by simp
        with chain_after_subset [OF after] True wf show ?thesis
          by (auto simp add: wf_len)
      qed
    qed
    then have "wf_table (set_bucket b (chain_store a (n\<lparr>refcount := refcount n + 1\<rparr>)
        (hash_buckets t ! b)) t)"
      by (intro wf_store [OF wf]) simp_all
    with Some x show ?thesis by simp
  qed
  show ?thesis
  proof (cases "node hi")
    case None
    with nxt scan have "t' = ?t1"
      by (auto simp add: hashtable_iter_next_def Let_def split: option.splits)
    with wf1 show ?thesis by simp
  next
    case (Some old)
    with nxt scan obtain n_old where
      old: "map_of (hash_buckets ?t1 ! unat (bucket hi)) old = Some n_old"
      and t': "t' = hashtable_node_deref ?t1 (unat (bucket hi)) old n_old"
      by (auto simp add: hashtable_iter_next_def Let_def split: option.splits)
    from old have mem: "(old, n_old) \<in> set (hash_buckets ?t1 ! unat (bucket hi))"
      by (rule map_of_SomeD)
    have b: "unat (bucket hi) < length (hash_buckets ?t1)"
      using cursor by (simp split: option.splits)
    from wf_deref [OF wf1 b mem] t' show ?thesis by simp
  qed
qed

lemma wf_create:
  assumes small: "unat max_size < 2 ^ 30"
    and created: "qb_hashtable_create plan max_size = Created t"
  shows "wf_table t"
proof -
  let ?k = "max 3 (floorlog 2 (unat max_size))"
  have fl: "floorlog 2 (unat max_size) \<le> 30" using small by (simp add: floorlog_le_iff)
  then have mx: "?k \<le> 30" by simp
  from created create_explicit [OF small, of plan]
  have t: "t = \<lparr>count = 0, order = of_nat ?k, hash_buckets_len = push_bit ?k 1,
               notifier_head = [], hash_buckets = replicate (2 ^ ?k) [],
               heap_top = 1, allocs = tl plan, errno = 0, trace = []\<rparr>"
    by (simp split: if_splits)
  have "concat (replicate j ([] :: chain)) = []" for j by (induction j) simp_all
  then show ?thesis
    using mx unat_small [OF mx] unat_push_bit_small [OF mx]
    by (simp add: wf_table_def t)
qed

subsection \<open>Registration of a notifier\<close>

text \<open>What the duplicate check of \<^verbatim>\<open>hashtable_notify_add\<close> rejects: a registration for
  \<open>FREE\<close> alone on a list that holds a notifier registered for \<open>FREE\<close> alone, and any
  registration on a list that holds a notifier with the same events, callback and user
  data.\<close>

lemma notify_add_rejects:
  assumes "notify_head t k = Some head"
  shows "((\<exists>f\<in>set (head_list t head). events f = QB_MAP_NOTIFY_FREE) \<longrightarrow>
            hashtable_notify_add t k fn QB_MAP_NOTIFY_FREE ud = (- EEXIST, t)) \<and>
         ((\<exists>f\<in>set (head_list t head). events f = ev \<and> callback f = fn \<and> user_data f = ud) \<longrightarrow>
            hashtable_notify_add t k fn ev ud = (- EEXIST, t))"
proof -
  have free: "QB_MAP_NOTIFY_FREE AND QB_MAP_NOTIFY_FREE \<noteq> 0"
    by (simp add: QB_MAP_NOTIFY_FREE_def)
  have "notify_exists QB_MAP_NOTIFY_FREE fn ud (head_list t head)"
    if "\<exists>f\<in>set (head_list t head). events f = QB_MAP_NOTIFY_FREE"
    using that by (simp add: notify_exists_free [OF free])
  moreover have "notify_exists ev fn ud (head_list t head)"
    if "\<exists>f\<in>set (head_list t head). events f = ev \<and> callback f = fn \<and> user_data f = ud"
    using that by (auto intro: notify_exists_triple)
  ultimately show ?thesis
    using assms by (auto simp: hashtable_notify_add_def)
qed

lemma notify_add_rejects_example:
  "notify_head (ht_empty\<lparr>notifier_head := [obs_ins, obs_free]\<rparr>) None = Some Table_Head \<and>
   obs_free \<in> set (head_list (ht_empty\<lparr>notifier_head := [obs_ins, obs_free]\<rparr>) Table_Head) \<and>
   events obs_free = QB_MAP_NOTIFY_FREE \<and>
   hashtable_notify_add (ht_empty\<lparr>notifier_head := [obs_ins, obs_free]\<rparr>) None 2
       QB_MAP_NOTIFY_FREE 7 =
     (- EEXIST, ht_empty\<lparr>notifier_head := [obs_ins, obs_free]\<rparr>) \<and>
   obs_ins \<in> set (head_list (ht_empty\<lparr>notifier_head := [obs_ins, obs_free]\<rparr>) Table_Head) \<and>
   events obs_ins = QB_MAP_NOTIFY_INSERTED \<and> callback obs_ins = 1 \<and> user_data obs_ins = 0 \<and>
   hashtable_notify_add (ht_empty\<lparr>notifier_head := [obs_ins, obs_free]\<rparr>) None 1
       QB_MAP_NOTIFY_INSERTED 0 =
     (- EEXIST, ht_empty\<lparr>notifier_head := [obs_ins, obs_free]\<rparr>)"
proof -
  let ?t = "ht_empty\<lparr>notifier_head := [obs_ins, obs_free]\<rparr>"
  have hd: "notify_head ?t None = Some Table_Head"
    by (simp add: notify_head_def)
  have l: "head_list ?t Table_Head = [obs_ins, obs_free]" by simp
  have f: "events obs_free = QB_MAP_NOTIFY_FREE" by (simp add: obs_free_def)
  have i: "events obs_ins = QB_MAP_NOTIFY_INSERTED" "callback obs_ins = 1" "user_data obs_ins = 0"
    by (simp_all add: obs_ins_def)
  from notify_add_rejects [OF hd, of 2 7 QB_MAP_NOTIFY_INSERTED]
    notify_add_rejects [OF hd, of 1 0 QB_MAP_NOTIFY_INSERTED] l f i
  show ?thesis by (simp add: hd)
qed

subsection \<open>The concrete tables\<close>

text \<open>The tables written out above are those the functions build.\<close>

lemma ht_empty_created: "qb_hashtable_create [] 1 = Created ht_empty"
  by code_simp

lemma ht_a_put: "hashtable_put ht_empty ''a'' 1 = ht_a 1"
  by code_simp

lemma ht_a_pinned: "pinned (ht_a 1) 1 (node_a 1) = ht_a 2"
  by code_simp

lemma wf_ht_abc: "wf_table ht_abc"
  by code_simp

section \<open>The claims\<close>

text \<open>
  C1, as stated, fails at \<open>max_size = 8\<close>: \<open>max(3, ceil(log2(8)))\<close> is 3, and the table
  has order 4 and 16 buckets.
\<close>

theorem create_order_counterexample:
  "max 3 (ceillog2 8) = 3 \<and>
   qb_hashtable_create [] 8 =
     Created \<lparr>count = 0, order = 4, hash_buckets_len = 16, notifier_head = [],
              hash_buckets = replicate 16 [], heap_top = 1, allocs = [], errno = 0,
              trace = []\<rparr>"
proof -
  have "ceillog2 (2 ^ 3) = 3" by (rule ceillog2_2_power)
  then have "max 3 (ceillog2 8) = 3" by simp
  moreover have "qb_hashtable_create [] 8 =
     Created \<lparr>count = 0, order = 4, hash_buckets_len = 16, notifier_head = [],
              hash_buckets = replicate 16 [], heap_top = 1, allocs = [], errno = 0,
              trace = []\<rparr>"
    by code_simp
  ultimately show ?thesis by simp
qed

text \<open>
  C1, amended. For every \<open>max_size\<close> below \<open>2 ^ 30\<close>, \<open>create(max_size)\<close>, when its
  allocation succeeds, builds a table whose order is \<open>max(3, ceil(log2(max_size + 1)))\<close>,
  the number of bits of \<open>max_size\<close>, and whose bucket array has exactly \<open>2 ^ order\<close>
  buckets; in particular \<open>max_size = 1\<close> gives order 3 and 8 buckets.
\<close>

theorem create_order:
  assumes small: "unat max_size < 2 ^ 30" and ok: "plan = [] \<or> hd plan"
  shows "\<exists>t. qb_hashtable_create plan max_size = Created t \<and>
             unat (order t) = max 3 (ceillog2 (unat max_size + 1)) \<and>
             length (hash_buckets t) = 2 ^ unat (order t) \<and>
             unat (hash_buckets_len t) = 2 ^ unat (order t)"
proof -
  let ?m = "unat max_size"
  let ?n = "ucast max_size :: 32 word"
  let ?fl = "floorlog 2 ?m"
  have un: "unat ?n = ?m" using small by (rule unat_ucast_small)
  with small have loop: "order_loop 0 ?n = Some (of_nat ?fl)"
    by (simp add: order_loop_floorlog)
  have fl: "?fl \<le> 30" using small by (simp add: floorlog_le_iff)
  then have mx: "max 3 ?fl \<le> 30" by simp
  note facts = QB_MAX_small [OF fl] unat_small [OF mx] unat_push_bit_small [OF mx]
  from ok have "qb_hashtable_create plan max_size =
      Created \<lparr>count = 0, order = of_nat (max 3 ?fl),
               hash_buckets_len = push_bit (max 3 ?fl) 1, notifier_head = [],
               hash_buckets = replicate (2 ^ max 3 ?fl) [],
               heap_top = 1, allocs = tl plan, errno = 0, trace = []\<rparr>"
    using mx by (auto simp add: qb_hashtable_create_def Let_def loop facts unat_pow_small)
  then have "\<exists>t. qb_hashtable_create plan max_size = Created t \<and>
             unat (order t) = max 3 ?fl \<and>
             length (hash_buckets t) = 2 ^ unat (order t) \<and>
             unat (hash_buckets_len t) = 2 ^ unat (order t)"
    using mx by (simp add: facts unat_pow_small)
  then show ?thesis by (simp only: floorlog_ceillog2)
qed

theorem create_order_witness:
  "unat (1 :: 64 word) < 2 ^ 30 \<and>
   qb_hashtable_create [] 1 = Created ht_empty \<and>
   unat (order ht_empty) = 3 \<and> max 3 (ceillog2 (unat (1 :: 64 word) + 1)) = 3 \<and>
   length (hash_buckets ht_empty) = 8 \<and> unat (hash_buckets_len ht_empty) = 8"
proof -
  have small: "unat (1 :: 64 word) < 2 ^ 30" by simp
  have c: "qb_hashtable_create [] 1 = Created ht_empty" by code_simp
  have o: "unat (order ht_empty) = 3" by (simp add: ht_empty_def)
  from create_order [OF small, of "[]"] small c o show ?thesis
    by (simp add: ht_empty_def)
qed

text \<open>
  C2, as stated, fails for a pinned entry. After \<^verbatim>\<open>create(1); put("a", 0x1)\<close> and one
  \<open>iter_next\<close> of a fresh iterator the key is present with two references; \<open>rm\<close>
  returns true, and then \<open>get\<close> still returns the value and a second \<open>rm\<close> returns true.
\<close>

theorem rm_unpinned_counterexample:
  "hashtable_iter_next (hashtable_put ht_empty ''a'' 1) \<lparr>node = None, bucket = 0\<rparr> =
     Some (Some (''a'', 1), \<lparr>node = Some 1, bucket = 1\<rparr>, ht_a 2) \<and>
   hashtable_lookup (ht_a 2) ''a'' = Some (1, node_a 2) \<and>
   fst (hashtable_rm (ht_a 2) ''a'') = True \<and>
   hashtable_get (snd (hashtable_rm (ht_a 2) ''a'')) ''a'' = 1 \<and>
   hashtable_get (snd (hashtable_rm (ht_a 2) ''a'')) ''a'' \<noteq> NULL \<and>
   fst (hashtable_rm (snd (hashtable_rm (ht_a 2) ''a'')) ''a'') = True"
  by code_simp

text \<open>
  C2, amended. For every key \<open>k\<close> present in the map whose entry is not pinned (its
  reference count is 1), \<open>rm(k)\<close> returns true, a \<open>get(k)\<close> that follows returns none and
  an \<open>rm(k)\<close> that follows returns false. On a table where \<open>k\<close> is absent,
  \<open>put(k,v); rm(k); rm(k)\<close> fires one \<open>INSERTED\<close> and one \<open>DELETED\<close> notification (one call
  for each observer of the table registered for the event; the snapshot for \<open>DELETED\<close>
  also holds the \<open>FREE\<close> copies), and the two \<open>rm\<close> return true, then false, the second
  one changing nothing.
\<close>

theorem rm_unpinned:
  assumes wf: "wf_table t"
  shows "(hashtable_lookup t k = Some (a, n) \<and> refcount n = 1 \<longrightarrow>
            fst (hashtable_rm t k) = True \<and>
            hashtable_get (snd (hashtable_rm t k)) k = NULL \<and>
            fst (hashtable_rm (snd (hashtable_rm t k)) k) = False) \<and>
         (hashtable_lookup t k = None \<and> allocs t = [] \<longrightarrow>
            trace (hashtable_put t k v) =
              trace t @ map (\<lambda>tn. invoke k NULL v (tn\<lparr>events := QB_MAP_NOTIFY_INSERTED\<rparr>))
                          (filter (\<lambda>tn. events tn AND QB_MAP_NOTIFY_INSERTED \<noteq> 0) (notifier_head t)) \<and>
            fst (hashtable_rm (hashtable_put t k v) k) = True \<and>
            trace (snd (hashtable_rm (hashtable_put t k v) k)) =
              trace (hashtable_put t k v) @
                map (invoke k v NULL) (concat (map (table_copy QB_MAP_NOTIFY_DELETED) (notifier_head t))) \<and>
            filter (\<lambda>c. call_events c = QB_MAP_NOTIFY_DELETED)
                (map (invoke k v NULL) (concat (map (table_copy QB_MAP_NOTIFY_DELETED) (notifier_head t)))) =
              map (\<lambda>tn. invoke k v NULL (tn\<lparr>events := QB_MAP_NOTIFY_DELETED\<rparr>))
                (filter (\<lambda>tn. events tn AND QB_MAP_NOTIFY_DELETED \<noteq> 0) (notifier_head t)) \<and>
            hashtable_rm (snd (hashtable_rm (hashtable_put t k v) k)) k =
              (False, snd (hashtable_rm (hashtable_put t k v) k)))"
proof (intro conjI impI)
  let ?b = "unat (qb_hash_string k (order t))"
  let ?c = "hash_buckets t ! ?b"
  from wf have b: "?b < length (hash_buckets t)" by (rule hash_in_range)
  {
    assume "hashtable_lookup t k = Some (a, n) \<and> refcount n = 1"
    then have find: "chain_find k ?c = Some (a, n)" and one: "refcount n = 1"
      by (simp_all add: hashtable_lookup_def)
    let ?t1 = "snd (hashtable_rm t k)"
    from wf b have dk: "distinct (map (\<lambda>(a, n). key n) ?c)" by (simp add: wf_table_def)
    show "fst (hashtable_rm t k) = True" by (simp add: rm_found [OF find])
    have bk: "hash_buckets ?t1 = (hash_buckets t)[?b := chain_del a ?c]"
      by (simp add: rm_found [OF find] deref_last_buckets [OF one b])
    have ord: "order ?t1 = order t" by (simp add: rm_found [OF find])
    have none: "chain_find k (hash_buckets ?t1 ! unat (qb_hash_string k (order ?t1))) = None"
      using b by (simp add: bk ord chain_find_del [OF dk find])
    then show "hashtable_get ?t1 k = NULL"
      by (simp add: hashtable_get_def hashtable_lookup_value_def)
    from none show "fst (hashtable_rm ?t1 k) = False" by (simp add: rm_absent)
  }
  {
    assume "hashtable_lookup t k = None \<and> allocs t = []"
    then have none: "chain_find k ?c = None" and al: "allocs t = []"
      by (simp_all add: hashtable_lookup_def)
    let ?nd = "\<lparr>key = k, node_value = v, refcount = 1, node_notifier_head = []\<rparr>"
    let ?t1 = "hashtable_put t k v"
    let ?t2 = "snd (hashtable_rm ?t1 k)"
    note t1 = put_insert [OF none al, of v]
    show "trace ?t1 = trace t @ map (\<lambda>tn. invoke k NULL v (tn\<lparr>events := QB_MAP_NOTIFY_INSERTED\<rparr>))
        (filter (\<lambda>tn. events tn AND QB_MAP_NOTIFY_INSERTED \<noteq> 0) (notifier_head t))"
      by (simp add: t1 table_copy_inserted comp_def)
    have ord1: "order ?t1 = order t" and al1: "allocs ?t1 = []"
      and nh1: "notifier_head ?t1 = notifier_head t"
      and len1: "?b < length (hash_buckets ?t1)"
      using al b by (simp_all add: t1)
    have bk1: "hash_buckets ?t1 ! ?b = ?c @ [(heap_top t, ?nd)]"
      using b by (simp add: t1)
    have find1: "chain_find k (hash_buckets ?t1 ! unat (qb_hash_string k (order ?t1))) =
        Some (heap_top t, ?nd)"
      using none by (simp add: ord1 bk1 chain_find_append)
    note rm1 = rm_found [OF find1]
    show "fst (hashtable_rm ?t1 k) = True" by (simp add: rm1)
    have dl: "hashtable_node_deref ?t1 ?b (heap_top t) ?nd =
        (set_bucket ?b (chain_del (heap_top t) (hash_buckets ?t1 ! ?b)) ?t1)
          \<lparr>trace := trace ?t1 @ map (invoke k v NULL) (snapshot ?t1 ?nd QB_MAP_NOTIFY_DELETED)\<rparr>"
      using deref_last [of ?nd ?t1 ?b "heap_top t"] al1 len1 by simp
    show "trace ?t2 = trace ?t1 @
        map (invoke k v NULL) (concat (map (table_copy QB_MAP_NOTIFY_DELETED) (notifier_head t)))"
      by (simp add: rm1 ord1 dl snapshot_def node_copies_def nh1)
    show "filter (\<lambda>c. call_events c = QB_MAP_NOTIFY_DELETED)
        (map (invoke k v NULL) (concat (map (table_copy QB_MAP_NOTIFY_DELETED) (notifier_head t)))) =
      map (\<lambda>tn. invoke k v NULL (tn\<lparr>events := QB_MAP_NOTIFY_DELETED\<rparr>))
        (filter (\<lambda>tn. events tn AND QB_MAP_NOTIFY_DELETED \<noteq> 0) (notifier_head t))"
      by (rule table_copy_deleted)
    from wf b have "\<forall>(a', n')\<in>set ?c. a' \<noteq> heap_top t"
      by (fastforce simp add: wf_table_def)
    then have del: "chain_del (heap_top t) (?c @ [(heap_top t, ?nd)]) = ?c"
      by (rule chain_del_fresh)
    have bk2: "hash_buckets ?t2 ! ?b = ?c"
      using len1 by (simp add: rm1 ord1 dl bk1 del)
    have ord2: "order ?t2 = order t" by (simp add: rm1 ord1)
    have "chain_find k (hash_buckets ?t2 ! unat (qb_hash_string k (order ?t2))) = None"
      by (simp add: ord2 bk2 none)
    then show "hashtable_rm ?t2 k = (False, ?t2)" by (rule rm_absent)
  }
qed


theorem rm_unpinned_witness:
  "wf_table (ht_a 1) \<and> hashtable_lookup (ht_a 1) ''a'' = Some (1, node_a 1) \<and>
   refcount (node_a 1) = 1 \<and>
   fst (hashtable_rm (ht_a 1) ''a'') = True \<and>
   hashtable_get (snd (hashtable_rm (ht_a 1) ''a'')) ''a'' = NULL \<and>
   fst (hashtable_rm (snd (hashtable_rm (ht_a 1) ''a'')) ''a'') = False \<and>
   wf_table (ht_empty\<lparr>notifier_head := [obs_ins_del]\<rparr>) \<and>
   hashtable_lookup (ht_empty\<lparr>notifier_head := [obs_ins_del]\<rparr>) ''a'' = None \<and>
   allocs (ht_empty\<lparr>notifier_head := [obs_ins_del]\<rparr>) = [] \<and>
   fst (hashtable_rm (hashtable_put (ht_empty\<lparr>notifier_head := [obs_ins_del]\<rparr>) ''a'' 1) ''a'') = True \<and>
   fst (hashtable_rm (snd (hashtable_rm
     (hashtable_put (ht_empty\<lparr>notifier_head := [obs_ins_del]\<rparr>) ''a'' 1) ''a'')) ''a'') = False \<and>
   trace (snd (hashtable_rm (snd (hashtable_rm
     (hashtable_put (ht_empty\<lparr>notifier_head := [obs_ins_del]\<rparr>) ''a'' 1) ''a'')) ''a'')) =
     [\<lparr>call_fn = 1, call_events = QB_MAP_NOTIFY_INSERTED, call_key = ''a'',
       call_old_value = NULL, call_value = 1, call_user_data = 0\<rparr>,
      \<lparr>call_fn = 1, call_events = QB_MAP_NOTIFY_DELETED, call_key = ''a'',
       call_old_value = 1, call_value = NULL, call_user_data = 0\<rparr>]"
proof -
  let ?t = "ht_empty\<lparr>notifier_head := [obs_ins_del]\<rparr>"
  have wf1: "wf_table (ht_a 1)" by code_simp
  have look: "hashtable_lookup (ht_a 1) ''a'' = Some (1, node_a 1)" by code_simp
  have one: "refcount (node_a 1) = 1" by (simp add: node_a_def)
  have wf2: "wf_table ?t" by code_simp
  have absent: "hashtable_lookup ?t ''a'' = None" by code_simp
  have al: "allocs ?t = []" and tr: "trace ?t = []" by (simp_all add: ht_empty_def)
  from rm_unpinned [OF wf1, of "''a''" 1 "node_a 1"] look one
  have p1: "fst (hashtable_rm (ht_a 1) ''a'') = True \<and>
      hashtable_get (snd (hashtable_rm (ht_a 1) ''a'')) ''a'' = NULL \<and>
      fst (hashtable_rm (snd (hashtable_rm (ht_a 1) ''a'')) ''a'') = False"
    by simp
  from rm_unpinned [OF wf2, of "''a''" 1 "node_a 1" 1] absent al tr
  have p2: "fst (hashtable_rm (hashtable_put ?t ''a'' 1) ''a'') = True \<and>
      fst (hashtable_rm (snd (hashtable_rm (hashtable_put ?t ''a'' 1) ''a'')) ''a'') = False \<and>
      trace (snd (hashtable_rm (snd (hashtable_rm (hashtable_put ?t ''a'' 1) ''a'')) ''a'')) =
        [\<lparr>call_fn = 1, call_events = QB_MAP_NOTIFY_INSERTED, call_key = ''a'',
          call_old_value = NULL, call_value = 1, call_user_data = 0\<rparr>,
         \<lparr>call_fn = 1, call_events = QB_MAP_NOTIFY_DELETED, call_key = ''a'',
          call_old_value = 1, call_value = NULL, call_user_data = 0\<rparr>]"
    by (simp add: obs_ins_del_def invoke_def table_copy_def QB_MAP_NOTIFY_INSERTED_def
        QB_MAP_NOTIFY_REPLACED_def QB_MAP_NOTIFY_DELETED_def QB_MAP_NOTIFY_FREE_def)
  from p1 p2 wf1 look one wf2 absent al show ?thesis by simp
qed

text \<open>
  C3, as stated, fails for a pinned entry. With the observer registered for
  \<open>DELETED | FREE\<close>, after \<^verbatim>\<open>put("a", 0x1)\<close> and one \<open>iter_next\<close> of a fresh iterator,
  \<^verbatim>\<open>put("a", 0x2)\<close> invokes the observer once, with \<open>FREE\<close>, and the \<open>rm\<close> that follows
  returns true without invoking it at all.
\<close>

theorem free_synthesis_counterexample:
  "hashtable_iter_next (hashtable_put ht_observed ''a'' 1) \<lparr>node = None, bucket = 0\<rparr> =
     Some (Some (''a'', 1), \<lparr>node = Some 1, bucket = 1\<rparr>, ht_a_observed 2) \<and>
   trace (hashtable_put (ht_a_observed 2) ''a'' 2) =
     [\<lparr>call_fn = 1, call_events = QB_MAP_NOTIFY_FREE, call_key = ''a'',
       call_old_value = 1, call_value = 2, call_user_data = 0\<rparr>] \<and>
   fst (hashtable_rm (hashtable_put (ht_a_observed 2) ''a'' 2) ''a'') = True \<and>
   trace (snd (hashtable_rm (hashtable_put (ht_a_observed 2) ''a'' 2) ''a'')) =
     trace (hashtable_put (ht_a_observed 2) ''a'' 2)"
  by code_simp

text \<open>
  C3, amended. For an observer of the table registered with \<open>events = DELETED | FREE\<close>
  (and no other registration with its callback and user data on the table or on the
  entry): a \<open>put\<close> that replaces the value of an existing key invokes the observer exactly
  once, with \<open>events = FREE\<close>; an \<open>rm\<close> of that key that follows, when the entry is not
  pinned (its reference count is 1), invokes it exactly twice, first with
  \<open>events = DELETED\<close>, then with \<open>events = FREE\<close>; and in every snapshot for a \<open>DELETED\<close> or
  \<open>REPLACED\<close> event each observer of the table whose registration includes \<open>FREE\<close> has a
  copy tagged \<open>FREE\<close>. Allocations are taken to succeed.
\<close>

theorem free_synthesis:
  assumes wf: "wf_table t" and al: "allocs t = []"
    and look: "hashtable_lookup t k = Some (a, n)"
    and ev: "events obs = QB_MAP_NOTIFY_DELETED OR QB_MAP_NOTIFY_FREE"
    and reg: "filter (\<lambda>tn. callback tn = callback obs \<and> user_data tn = user_data obs)
                (notifier_head t) = [obs]"
    and other: "\<forall>tn\<in>set (node_notifier_head n).
                  \<not> (callback tn = callback obs \<and> user_data tn = user_data obs)"
  shows "observer_calls obs (drop (length (trace t)) (trace (hashtable_put t k v))) =
           [invoke k (node_value n) v (obs\<lparr>events := QB_MAP_NOTIFY_FREE\<rparr>)] \<and>
         (refcount n = 1 \<longrightarrow>
            fst (hashtable_rm (hashtable_put t k v) k) = True \<and>
            observer_calls obs
                (drop (length (trace (hashtable_put t k v)))
                   (trace (snd (hashtable_rm (hashtable_put t k v) k)))) =
              [invoke k v NULL (obs\<lparr>events := QB_MAP_NOTIFY_DELETED\<rparr>),
               invoke k v NULL (obs\<lparr>events := QB_MAP_NOTIFY_FREE\<rparr>)]) \<and>
         ((ev' AND QB_MAP_NOTIFY_DELETED \<noteq> 0 \<or> ev' AND QB_MAP_NOTIFY_REPLACED \<noteq> 0) \<and>
          tn \<in> set (notifier_head t) \<and> events tn AND QB_MAP_NOTIFY_FREE \<noteq> 0 \<longrightarrow>
            (\<exists>l. fst (copy_notify_list t n' ev') = Some l \<and>
                 tn\<lparr>events := QB_MAP_NOTIFY_FREE\<rparr> \<in> set l))"
proof (intro conjI impI)
  let ?b = "unat (qb_hash_string k (order t))"
  let ?c = "hash_buckets t ! ?b"
  let ?n1 = "n\<lparr>key := k, node_value := v\<rparr>"
  let ?t1 = "hashtable_put t k v"
  from wf have b: "?b < length (hash_buckets t)" by (rule hash_in_range)
  from look have find: "chain_find k ?c = Some (a, n)" by (simp add: hashtable_lookup_def)
  then have kn: "key n = k" by (simp add: chain_find_Some_mem)
  note t1 = put_replace [OF find al, of v]
  have tr1: "drop (length (trace t)) (trace ?t1) =
      map (invoke k (node_value n) v) (snapshot t n QB_MAP_NOTIFY_REPLACED)"
    by (simp add: t1 kn)
  show "observer_calls obs (drop (length (trace t)) (trace ?t1)) =
      [invoke k (node_value n) v (obs\<lparr>events := QB_MAP_NOTIFY_FREE\<rparr>)]"
    using other
    by (simp add: tr1 snapshot_def observer_calls_node observer_calls_table reg
        table_copy_del_free [OF ev])
  have ord1: "order ?t1 = order t" and al1: "allocs ?t1 = []"
    and nh1: "notifier_head ?t1 = notifier_head t"
    and len1: "?b < length (hash_buckets ?t1)"
    using al b by (simp_all add: t1)
  have find1: "chain_find k (hash_buckets ?t1 ! unat (qb_hash_string k (order ?t1))) = Some (a, ?n1)"
    using b find by (simp add: t1 chain_find_store)
  note rm1 = rm_found [OF find1]
  {
    assume one: "refcount n = 1"
    show "fst (hashtable_rm ?t1 k) = True" by (simp add: rm1)
    have dl: "hashtable_node_deref ?t1 ?b a ?n1 =
        (set_bucket ?b (chain_del a (hash_buckets ?t1 ! ?b)) ?t1)
          \<lparr>trace := trace ?t1 @ map (invoke k v NULL) (snapshot ?t1 ?n1 QB_MAP_NOTIFY_DELETED)\<rparr>"
      using deref_last [of ?n1 ?t1 ?b a] one al1 len1 by simp
    have tr2: "drop (length (trace ?t1)) (trace (snd (hashtable_rm ?t1 k))) =
        map (invoke k v NULL) (snapshot ?t1 ?n1 QB_MAP_NOTIFY_DELETED)"
      by (simp add: rm1 ord1 dl)
    show "observer_calls obs (drop (length (trace ?t1)) (trace (snd (hashtable_rm ?t1 k)))) =
        [invoke k v NULL (obs\<lparr>events := QB_MAP_NOTIFY_DELETED\<rparr>),
         invoke k v NULL (obs\<lparr>events := QB_MAP_NOTIFY_FREE\<rparr>)]"
      using other
      by (simp add: tr2 snapshot_def nh1 observer_calls_node observer_calls_table reg
          table_copy_del_free [OF ev])
  }
  {
    assume h: "(ev' AND QB_MAP_NOTIFY_DELETED \<noteq> 0 \<or> ev' AND QB_MAP_NOTIFY_REPLACED \<noteq> 0) \<and>
        tn \<in> set (notifier_head t) \<and> events tn AND QB_MAP_NOTIFY_FREE \<noteq> 0"
    then have "tn\<lparr>events := QB_MAP_NOTIFY_FREE\<rparr> \<in>
        set (concat (map (table_copy ev') (notifier_head t)))"
      by (intro table_copy_free_mem) simp_all
    then have "tn\<lparr>events := QB_MAP_NOTIFY_FREE\<rparr> \<in> set (snapshot t n' ev')"
      unfolding snapshot_def by simp
    then show "\<exists>l. fst (copy_notify_list t n' ev') = Some l \<and>
        tn\<lparr>events := QB_MAP_NOTIFY_FREE\<rparr> \<in> set l"
      by (simp add: copy_notify_list_ok [OF al])
  }
qed

theorem free_synthesis_witness:
  "wf_table (ht_a_observed 1) \<and> allocs (ht_a_observed 1) = [] \<and>
   hashtable_lookup (ht_a_observed 1) ''a'' = Some (1, node_a 1) \<and>
   events obs_del_free = QB_MAP_NOTIFY_DELETED OR QB_MAP_NOTIFY_FREE \<and>
   notifier_head (ht_a_observed 1) = [obs_del_free] \<and>
   node_notifier_head (node_a 1) = [] \<and> refcount (node_a 1) = 1 \<and>
   QB_MAP_NOTIFY_REPLACED AND QB_MAP_NOTIFY_REPLACED \<noteq> 0 \<and>
   events obs_del_free AND QB_MAP_NOTIFY_FREE \<noteq> 0 \<and>
   trace (hashtable_put (ht_a_observed 1) ''a'' 2) =
     [\<lparr>call_fn = 1, call_events = QB_MAP_NOTIFY_FREE, call_key = ''a'',
       call_old_value = 1, call_value = 2, call_user_data = 0\<rparr>] \<and>
   observer_calls obs_del_free (trace (hashtable_put (ht_a_observed 1) ''a'' 2)) =
     [\<lparr>call_fn = 1, call_events = QB_MAP_NOTIFY_FREE, call_key = ''a'',
       call_old_value = 1, call_value = 2, call_user_data = 0\<rparr>] \<and>
   fst (hashtable_rm (hashtable_put (ht_a_observed 1) ''a'' 2) ''a'') = True \<and>
   observer_calls obs_del_free
       (drop 1 (trace (snd (hashtable_rm (hashtable_put (ht_a_observed 1) ''a'' 2) ''a'')))) =
     [\<lparr>call_fn = 1, call_events = QB_MAP_NOTIFY_DELETED, call_key = ''a'',
       call_old_value = 2, call_value = NULL, call_user_data = 0\<rparr>,
      \<lparr>call_fn = 1, call_events = QB_MAP_NOTIFY_FREE, call_key = ''a'',
       call_old_value = 2, call_value = NULL, call_user_data = 0\<rparr>] \<and>
   (\<exists>l. fst (copy_notify_list (ht_a_observed 1) (node_a 1) QB_MAP_NOTIFY_REPLACED) = Some l \<and>
        obs_del_free\<lparr>events := QB_MAP_NOTIFY_FREE\<rparr> \<in> set l)"
proof -
  let ?t = "ht_a_observed 1"
  have wf: "wf_table ?t" by code_simp
  have al: "allocs ?t = []" and tr: "trace ?t = []"
    and nh: "notifier_head ?t = [obs_del_free]"
    by (simp_all add: ht_a_observed_def ht_a_def)
  have look: "hashtable_lookup ?t ''a'' = Some (1, node_a 1)" by code_simp
  have ev: "events obs_del_free = QB_MAP_NOTIFY_DELETED OR QB_MAP_NOTIFY_FREE"
    by (simp add: obs_del_free_def)
  have reg: "filter (\<lambda>tn. callback tn = callback obs_del_free \<and> user_data tn = user_data obs_del_free)
      (notifier_head ?t) = [obs_del_free]"
    by (simp add: nh)
  have other: "\<forall>tn\<in>set (node_notifier_head (node_a 1)).
      \<not> (callback tn = callback obs_del_free \<and> user_data tn = user_data obs_del_free)"
    by (simp add: node_a_def)
  have nn: "node_notifier_head (node_a 1) = []" and one: "refcount (node_a 1) = 1"
    and nv: "node_value (node_a 1) = 1"
    by (simp_all add: node_a_def)
  have rep: "QB_MAP_NOTIFY_REPLACED AND QB_MAP_NOTIFY_REPLACED \<noteq> 0"
    by (simp add: QB_MAP_NOTIFY_REPLACED_def)
  have fr: "events obs_del_free AND QB_MAP_NOTIFY_FREE \<noteq> 0"
    by (simp add: obs_del_free_def QB_MAP_NOTIFY_DELETED_def QB_MAP_NOTIFY_FREE_def)
  have put: "trace (hashtable_put ?t ''a'' 2) =
      [\<lparr>call_fn = 1, call_events = QB_MAP_NOTIFY_FREE, call_key = ''a'',
        call_old_value = 1, call_value = 2, call_user_data = 0\<rparr>]"
    by code_simp
  from free_synthesis [OF wf al look ev reg other,
      of 2 QB_MAP_NOTIFY_REPLACED obs_del_free "node_a 1"]
    wf al look ev nh nn one rep fr put tr nv
  show ?thesis
    by (simp add: invoke_def obs_del_free_def)
qed

text \<open>
  C4. \<open>notify_add\<close> with \<open>events == FREE\<close> is to be rejected with \<open>-EEXIST\<close> whenever a
  notifier whose events include \<open>FREE\<close> is on the same list, as the comment
  \<^verbatim>\<open>/* only one free notifier */\<close> at the check says. The check compares the masks for
  equality (\<^verbatim>\<open>f->events == events\<close>) where \<^verbatim>\<open>add_to_tail\<close> in the same function and
  \<^verbatim>\<open>copy_notify_list\<close> test the \<open>FREE\<close> bit. So on the table of \<^verbatim>\<open>create(1)\<close> with an
  observer registered for \<open>DELETED | FREE\<close>, a registration of a second callback for
  \<open>FREE\<close> returns 0 and is appended, and the list holds two notifiers that receive
  \<open>FREE\<close>: after \<^verbatim>\<open>put("a", 0x1)\<close>, one \<open>rm\<close> delivers \<open>FREE\<close> to both callbacks.
\<close>

theorem notify_add_free_accepted:
  "qb_hashtable_create [] 1 = Created ht_empty \<and>
   hashtable_notify_add ht_empty None 1 (QB_MAP_NOTIFY_DELETED OR QB_MAP_NOTIFY_FREE) 0 =
     (0, ht_observed) \<and>
   head_list ht_observed Table_Head = [obs_del_free] \<and>
   events obs_del_free AND QB_MAP_NOTIFY_FREE \<noteq> 0 \<and>
   hashtable_notify_add ht_observed None 2 QB_MAP_NOTIFY_FREE 0 =
     (0, ht_observed\<lparr>notifier_head :=
           [obs_del_free, \<lparr>events = QB_MAP_NOTIFY_FREE, callback = 2, user_data = 0\<rparr>]\<rparr>) \<and>
   fst (hashtable_notify_add ht_observed None 2 QB_MAP_NOTIFY_FREE 0) \<noteq> - EEXIST \<and>
   trace (snd (hashtable_rm
       (hashtable_put (snd (hashtable_notify_add ht_observed None 2 QB_MAP_NOTIFY_FREE 0)) ''a'' 1)
       ''a'')) =
     [\<lparr>call_fn = 1, call_events = QB_MAP_NOTIFY_DELETED, call_key = ''a'',
       call_old_value = 1, call_value = NULL, call_user_data = 0\<rparr>,
      \<lparr>call_fn = 1, call_events = QB_MAP_NOTIFY_FREE, call_key = ''a'',
       call_old_value = 1, call_value = NULL, call_user_data = 0\<rparr>,
      \<lparr>call_fn = 2, call_events = QB_MAP_NOTIFY_FREE, call_key = ''a'',
       call_old_value = 1, call_value = NULL, call_user_data = 0\<rparr>]"
  by code_simp

text \<open>
  C5. On a quiescent table (one thread; every linked entry has a positive reference
  count, as it has when no other iterator is outstanding), a fresh iterator driven by
  \<open>iter_next\<close> until it returns null yields every present key exactly once: the loop ends
  (within one call more than there are entries), the keys collected are those of the
  chains in bucket and link order, none is repeated, their set is the set of the keys
  that \<open>get\<close> finds, and the table is afterwards as it was. \<open>iter_create\<close> hands out the
  fresh cursor when its allocation succeeds.
\<close>

theorem full_iteration:
  assumes wf: "wf_table t" and live: "all_live t"
    and fuel: "length (concat (hash_buckets t)) < fuel"
  shows "(allocs t = [] \<longrightarrow>
            hashtable_iter_create t prefix = (Some \<lparr>node = None, bucket = 0\<rparr>, t)) \<and>
         (\<exists>ks hi'. iter_collect fuel t \<lparr>node = None, bucket = 0\<rparr> = Some (ks, hi', t) \<and>
            ks = map (\<lambda>(a, n). key n) (concat (hash_buckets t)) \<and>
            distinct ks \<and>
            set ks = {k. hashtable_lookup t k \<noteq> None})"
proof -
  from live have live': "\<forall>c\<in>set (hash_buckets t). \<forall>(a, n)\<in>set c. 0 < refcount n"
    by (simp add: all_live_def list_all_iff)
  from iter_collect_fresh [OF wf live' fuel] obtain hi' where
    "iter_collect fuel t \<lparr>node = None, bucket = 0\<rparr> =
       Some (map (\<lambda>(a, n). key n) (concat (hash_buckets t)), hi', t)" by blast
  moreover have "set (map (\<lambda>(a, n). key n) (concat (hash_buckets t))) =
      {k. hashtable_lookup t k \<noteq> None}"
    using wf_keys_present [OF wf] by blast
  ultimately show ?thesis
    using wf_keys_distinct [OF wf] by (simp add: hashtable_iter_create_def malloc_ok)
qed

theorem full_iteration_witness:
  "wf_table ht_abc \<and> all_live ht_abc \<and>
   length (concat (hash_buckets ht_abc)) < 4 \<and>
   allocs ht_abc = [] \<and>
   hashtable_iter_create ht_abc None = (Some \<lparr>node = None, bucket = 0\<rparr>, ht_abc) \<and>
   iter_collect 4 ht_abc \<lparr>node = None, bucket = 0\<rparr> =
     Some ([''c'', ''a'', ''b''], \<lparr>node = Some 2, bucket = 1\<rparr>, ht_abc) \<and>
   distinct [''c'', ''a'', ''b''] \<and>
   set [''c'', ''a'', ''b''] = {k. hashtable_lookup ht_abc k \<noteq> None}"
proof -
  have wf: "wf_table ht_abc" by code_simp
  have live: "all_live ht_abc" by code_simp
  have fuel: "length (concat (hash_buckets ht_abc)) < 4" by code_simp
  have al: "allocs ht_abc = []" by code_simp
  have run: "iter_collect 4 ht_abc \<lparr>node = None, bucket = 0\<rparr> =
      Some ([''c'', ''a'', ''b''], \<lparr>node = Some 2, bucket = 1\<rparr>, ht_abc)"
    by code_simp
  note th = full_iteration [OF wf live fuel, of None]
  from th [THEN conjunct1] al
  have cr: "hashtable_iter_create ht_abc None = (Some \<lparr>node = None, bucket = 0\<rparr>, ht_abc)"
    by (rule mp)
  from th [THEN conjunct2] obtain ks hi' where
    r: "iter_collect 4 ht_abc \<lparr>node = None, bucket = 0\<rparr> = Some (ks, hi', ht_abc)"
    and s: "set ks = {k. hashtable_lookup ht_abc k \<noteq> None}" by blast
  from r have "ks = [''c'', ''a'', ''b'']" by (simp only: run option.inject prod.inject)
  with s have st: "set [''c'', ''a'', ''b''] = {k. hashtable_lookup ht_abc k \<noteq> None}"
    by (simp only:)
  have "distinct [''c'', ''a'', ''b'']" by simp
  with wf live fuel al run cr st show ?thesis by (intro conjI)
qed

text \<open>
  C6. On a table where \<open>k\<close> is absent, \<open>put(k,v); put(k,v')\<close> fires one \<open>INSERTED\<close>
  notification, then one \<open>REPLACED\<close> notification that carries the old value \<open>v\<close> and the
  new value \<open>v'\<close>; afterwards \<open>get(k)\<close> is \<open>v'\<close> and \<open>count()\<close> is one more than before the
  first \<open>put\<close>. A notification reaches every observer of the table registered for the
  event, once each and in list order: the first \<open>put\<close> invokes exactly these, with
  \<open>INSERTED\<close>; the second invokes the snapshot for \<open>REPLACED\<close>, whose \<open>REPLACED\<close> calls
  are exactly these. Allocations are taken to succeed (C7 is the other case).
\<close>

theorem put_put:
  assumes wf: "wf_table t" and absent: "hashtable_lookup t k = None" and al: "allocs t = []"
  shows "trace (hashtable_put t k v) =
           trace t @ map (\<lambda>tn. invoke k NULL v (tn\<lparr>events := QB_MAP_NOTIFY_INSERTED\<rparr>))
                       (filter (\<lambda>tn. events tn AND QB_MAP_NOTIFY_INSERTED \<noteq> 0) (notifier_head t)) \<and>
         trace (hashtable_put (hashtable_put t k v) k v') =
           trace (hashtable_put t k v) @
             map (invoke k v v') (concat (map (table_copy QB_MAP_NOTIFY_REPLACED) (notifier_head t))) \<and>
         filter (\<lambda>c. call_events c = QB_MAP_NOTIFY_REPLACED)
             (map (invoke k v v') (concat (map (table_copy QB_MAP_NOTIFY_REPLACED) (notifier_head t)))) =
           map (\<lambda>tn. invoke k v v' (tn\<lparr>events := QB_MAP_NOTIFY_REPLACED\<rparr>))
             (filter (\<lambda>tn. events tn AND QB_MAP_NOTIFY_REPLACED \<noteq> 0) (notifier_head t)) \<and>
         hashtable_get (hashtable_put (hashtable_put t k v) k v') k = v' \<and>
         hashtable_count_get (hashtable_put (hashtable_put t k v) k v') =
           hashtable_count_get t + 1"
proof -
  let ?b = "unat (qb_hash_string k (order t))"
  let ?c = "hash_buckets t ! ?b"
  let ?nd = "\<lparr>key = k, node_value = v, refcount = 1, node_notifier_head = []\<rparr>"
  let ?t1 = "hashtable_put t k v"
  let ?t2 = "hashtable_put ?t1 k v'"
  from wf have b: "?b < length (hash_buckets t)" by (rule hash_in_range)
  from absent have none: "chain_find k ?c = None" by (simp add: hashtable_lookup_def)
  note t1 = put_insert [OF none al, of v]
  have tr1: "trace ?t1 = trace t @ map (invoke k NULL v)
      (concat (map (table_copy QB_MAP_NOTIFY_INSERTED) (notifier_head t)))"
    by (simp add: t1)
  have ord1: "order ?t1 = order t" and al1: "allocs ?t1 = []" and cnt1: "count ?t1 = count t + 1"
    and nh1: "notifier_head ?t1 = notifier_head t"
    using al by (simp_all add: t1)
  have bk1: "hash_buckets ?t1 ! ?b = ?c @ [(heap_top t, ?nd)]"
    using b by (simp add: t1)
  have find1: "chain_find k (hash_buckets ?t1 ! unat (qb_hash_string k (order ?t1))) =
      Some (heap_top t, ?nd)"
    using none by (simp add: ord1 bk1 chain_find_append)
  note t2 = put_replace [OF find1 al1, of v']
  have tr2: "trace ?t2 = trace ?t1 @ map (invoke k v v')
      (concat (map (table_copy QB_MAP_NOTIFY_REPLACED) (notifier_head t)))"
    by (simp add: t2 snapshot_def node_copies_def nh1)
  have len1: "?b < length (hash_buckets ?t1)" using b by (simp add: t1)
  have find2: "chain_find k (hash_buckets ?t2 ! unat (qb_hash_string k (order ?t2))) =
      Some (heap_top t, ?nd\<lparr>key := k, node_value := v'\<rparr>)"
    using len1 find1 by (simp add: t2 ord1 chain_find_store)
  have get2: "hashtable_get ?t2 k = v'"
    by (simp add: hashtable_get_def hashtable_lookup_value_def find2)
  have cnt2: "count ?t2 = count t + 1"
    by (simp add: t2 cnt1)
  have rep: "QB_MAP_NOTIFY_REPLACED \<noteq> QB_MAP_NOTIFY_FREE"
    by (simp add: QB_MAP_NOTIFY_REPLACED_def QB_MAP_NOTIFY_FREE_def)
  show ?thesis
    using tr1 tr2 get2 cnt2 table_copy_tagged [OF rep, of k v v' "notifier_head t"]
    by (simp add: table_copy_inserted hashtable_count_get_def comp_def)
qed


theorem put_put_witness:
  "wf_table (ht_empty\<lparr>notifier_head := [obs_ins_rep]\<rparr>) \<and>
   hashtable_lookup (ht_empty\<lparr>notifier_head := [obs_ins_rep]\<rparr>) ''a'' = None \<and>
   allocs (ht_empty\<lparr>notifier_head := [obs_ins_rep]\<rparr>) = [] \<and>
   trace (hashtable_put (ht_empty\<lparr>notifier_head := [obs_ins_rep]\<rparr>) ''a'' 1) =
     [\<lparr>call_fn = 1, call_events = QB_MAP_NOTIFY_INSERTED, call_key = ''a'',
       call_old_value = NULL, call_value = 1, call_user_data = 0\<rparr>] \<and>
   trace (hashtable_put (hashtable_put (ht_empty\<lparr>notifier_head := [obs_ins_rep]\<rparr>) ''a'' 1) ''a'' 2) =
     [\<lparr>call_fn = 1, call_events = QB_MAP_NOTIFY_INSERTED, call_key = ''a'',
       call_old_value = NULL, call_value = 1, call_user_data = 0\<rparr>,
      \<lparr>call_fn = 1, call_events = QB_MAP_NOTIFY_REPLACED, call_key = ''a'',
       call_old_value = 1, call_value = 2, call_user_data = 0\<rparr>] \<and>
   hashtable_get (hashtable_put (hashtable_put (ht_empty\<lparr>notifier_head := [obs_ins_rep]\<rparr>) ''a'' 1) ''a'' 2) ''a'' = 2 \<and>
   hashtable_count_get
     (hashtable_put (hashtable_put (ht_empty\<lparr>notifier_head := [obs_ins_rep]\<rparr>) ''a'' 1) ''a'' 2) = 1"
proof -
  let ?t = "ht_empty\<lparr>notifier_head := [obs_ins_rep]\<rparr>"
  have wf: "wf_table ?t" by code_simp
  have absent: "hashtable_lookup ?t ''a'' = None" by code_simp
  have al: "allocs ?t = []" by (simp add: ht_empty_def)
  have tr: "trace ?t = []" and cnt: "hashtable_count_get ?t = 0"
    by (simp_all add: ht_empty_def hashtable_count_get_def)
  from put_put [OF wf absent al, of 1 2] wf absent al tr cnt show ?thesis
    by (simp add: obs_ins_rep_def invoke_def table_copy_def QB_MAP_NOTIFY_INSERTED_def
        QB_MAP_NOTIFY_REPLACED_def QB_MAP_NOTIFY_DELETED_def QB_MAP_NOTIFY_FREE_def)
qed

text \<open>
  C7. When the allocation of the new entry fails in \<open>put(key, value)\<close> for an absent key,
  the operation is abandoned: no bucket chain changes, \<open>count()\<close> is the same, no callback
  is invoked, and \<open>errno\<close> is \<open>ENOMEM\<close>. All that changes is the process around the table:
  the failed allocation is consumed and \<open>errno\<close> is set.
\<close>

theorem put_alloc_failure:
  assumes "hashtable_lookup t k = None" and "allocs t = False # rest"
  shows "hashtable_put t k v = t\<lparr>allocs := rest, errno := ENOMEM\<rparr> \<and>
         hash_buckets (hashtable_put t k v) = hash_buckets t \<and>
         hashtable_count_get (hashtable_put t k v) = hashtable_count_get t \<and>
         trace (hashtable_put t k v) = trace t \<and>
         errno (hashtable_put t k v) = ENOMEM"
proof -
  from assms have "hashtable_put t k v = t\<lparr>allocs := rest, errno := ENOMEM\<rparr>"
    by (simp add: hashtable_put_def hashtable_lookup_def malloc_fail)
  then show ?thesis by (simp add: hashtable_count_get_def)
qed

theorem put_alloc_failure_witness:
  "hashtable_lookup (ht_a 1\<lparr>allocs := [False]\<rparr>) ''b'' = None \<and>
   allocs (ht_a 1\<lparr>allocs := [False]\<rparr>) = [False] \<and>
   hashtable_put (ht_a 1\<lparr>allocs := [False]\<rparr>) ''b'' 2 = ht_a 1\<lparr>allocs := [], errno := ENOMEM\<rparr> \<and>
   hashtable_count_get (hashtable_put (ht_a 1\<lparr>allocs := [False]\<rparr>) ''b'' 2) = 1 \<and>
   trace (hashtable_put (ht_a 1\<lparr>allocs := [False]\<rparr>) ''b'' 2) = []"
proof -
  have absent: "hashtable_lookup (ht_a 1\<lparr>allocs := [False]\<rparr>) ''b'' = None" by code_simp
  have plan: "allocs (ht_a 1\<lparr>allocs := [False]\<rparr>) = [False]" by simp
  from put_alloc_failure [OF absent plan, of 2] absent show ?thesis
    by (simp add: hashtable_count_get_def ht_a_def)
qed

text \<open>
  C8. An iterator that has returned null still holds its last entry, with the pin
  released. One more \<open>iter_next\<close> dereferences that entry again: when the entry is linked
  with reference count 1, the call returns, the \<open>DELETED\<close> snapshot of the entry is
  invoked, the entry is unlinked from its chain and freed, and the count of the table
  is not decremented; afterwards \<open>get\<close> on its key returns none while \<open>count()\<close> is as
  before. The same holds for any cursor whose entry is linked with reference count 1.
  Allocations are taken to succeed.
\<close>

theorem iter_next_after_end:
  assumes wf: "wf_table t" and al: "allocs t = []"
    and cur: "node hi = Some a"
    and b: "unat (bucket hi) < length (hash_buckets t)"
    and mem: "(a, n) \<in> set (hash_buckets t ! unat (bucket hi))"
    and one: "refcount n = 1"
  shows "\<exists>res hi' t'. hashtable_iter_next t hi = Some (res, hi', t') \<and>
           trace t' = trace t @ map (invoke (key n) (node_value n) NULL)
                                  (snapshot t n QB_MAP_NOTIFY_DELETED) \<and>
           (\<forall>c\<in>set (hash_buckets t'). a \<notin> fst ` set c) \<and>
           hashtable_count_get t' = hashtable_count_get t \<and>
           hashtable_get t' (key n) = NULL \<and>
           hashtable_get t (key n) = node_value n"
proof -
  let ?b = "unat (bucket hi)"
  let ?bs = "hash_buckets t"
  let ?del = "map (invoke (key n) (node_value n) NULL) (snapshot t n QB_MAP_NOTIFY_DELETED)"
  from mem have ain: "a \<in> fst ` set (?bs ! ?b)" by force
  then obtain rest where after: "chain_after a (?bs ! ?b) = Some rest"
    using chain_after_mem by blast
  have dc: "distinct (map fst (?bs ! ?b))" using wf b by (rule wf_chain_distinct)
  have dk: "distinct (map (\<lambda>(a, n). key n) (?bs ! ?b))" using wf b by (rule wf_keys_chain)
  have old0: "map_of (?bs ! ?b) a = Some n" using dc mem by simp
  have h: "unat (qb_hash_string (key n) (order t)) = ?b" using wf b mem by (rule wf_hash)
  have find0: "chain_find (key n) (?bs ! ?b) = Some (a, n)"
  proof -
    from mem have "key n \<in> set (map (\<lambda>(a, n). key n) (?bs ! ?b))" by force
    then obtain x y where f: "chain_find (key n) (?bs ! ?b) = Some (x, y)"
      by (cases "chain_find (key n) (?bs ! ?b)") (auto simp add: chain_find_None)
    from chain_find_Some_mem [OF f] key_unique [OF dk mem] have "x = a \<and> y = n" by blast
    with f show ?thesis by simp
  qed
  have get0: "hashtable_get t (key n) = node_value n"
    by (simp add: hashtable_get_def hashtable_lookup_value_def h find0)
  from b wf have b': "?b < unat (hash_buckets_len t)" by (simp add: wf_len)
  from scan_true_found [OF b' after] obtain found where
    scan: "iter_scan t (Some a) ?b True = Some found"
    and where_found: "\<forall>b' a' n'. found = Some (b', a', n') \<longrightarrow>
      (b' = ?b \<and> (a', n') \<in> set rest) \<or>
      (?b < b' \<and> b' < unat (hash_buckets_len t) \<and> (a', n') \<in> set (?bs ! b'))" by blast
  show ?thesis
  proof (cases found)
    case None
    let ?t' = "(set_bucket ?b (chain_del a (?bs ! ?b)) t)\<lparr>trace := trace t @ ?del\<rparr>"
    have deref: "hashtable_node_deref t ?b a n = ?t'"
      using deref_last [OF one al b, of a] by simp
    have nxt: "hashtable_iter_next t hi = Some (None, hi, ?t')"
      using old0 by (simp add: hashtable_iter_next_def cur scan None deref)
    have unl: "\<forall>c\<in>set (hash_buckets ?t'). a \<notin> fst ` set c"
      using destroy_unlinks [OF wf b mem, of ?bs] by simp
    have get: "hashtable_get ?t' (key n) = NULL"
      using b by (simp add: hashtable_get_def hashtable_lookup_value_def h
          chain_find_del_none [OF dk mem])
    from nxt unl get get0 show ?thesis
      by (simp add: hashtable_count_get_def)
  next
    case (Some x)
    obtain b1 a1 n1 where x: "x = (b1, a1, n1)" by (cases x)
    let ?m1 = "n1\<lparr>refcount := refcount n1 + 1\<rparr>"
    from where_found Some x have loc:
      "(b1 = ?b \<and> (a1, n1) \<in> set rest) \<or>
       (?b < b1 \<and> b1 < unat (hash_buckets_len t) \<and> (a1, n1) \<in> set (?bs ! b1))" by simp
    have b1: "b1 < length ?bs" using loc b wf by (auto simp add: wf_len)
    have mem1: "(a1, n1) \<in> set (?bs ! b1)"
      using loc chain_after_subset [OF after] by auto
    have ne: "a1 \<noteq> a"
    proof
      assume eq: "a1 = a"
      from loc show False
      proof
        assume "b1 = ?b \<and> (a1, n1) \<in> set rest"
        with chain_after_notin [OF after dc] eq show False by force
      next
        assume "?b < b1 \<and> b1 < unat (hash_buckets_len t) \<and> (a1, n1) \<in> set (?bs ! b1)"
        with addr_unique [OF wf_distinct [OF wf] b1 b _ mem, of n1] eq show False by simp
      qed
    qed
    let ?t1 = "set_bucket b1 (chain_store a1 ?m1 (?bs ! b1)) t"
    have al1: "allocs ?t1 = []" using al by simp
    have len1: "?b < length (hash_buckets ?t1)" using b by simp
    have old1: "map_of (hash_buckets ?t1 ! ?b) a = Some n"
    proof (cases "b1 = ?b")
      case True
      with b old0 ne show ?thesis by (simp add: map_of_chain_store_other)
    next
      case False
      with b old0 show ?thesis by simp
    qed
    let ?t' = "(set_bucket ?b (chain_del a (hash_buckets ?t1 ! ?b)) ?t1)
                 \<lparr>trace := trace t @ ?del\<rparr>"
    have deref: "hashtable_node_deref ?t1 ?b a n = ?t'"
      using deref_last [OF one al1 len1, of a] by (simp add: snapshot_def)
    have nxt: "hashtable_iter_next t hi =
        Some (Some (key n1, node_value n1), hi\<lparr>bucket := of_nat b1, node := Some a1\<rparr>, ?t')"
      using old1 by (simp add: hashtable_iter_next_def cur scan Some x deref)
    have fst1: "\<forall>i<length ?bs. fst ` set (hash_buckets ?t1 ! i) = fst ` set (?bs ! i)"
    proof (intro allI impI)
      fix i assume "i < length ?bs"
      then show "fst ` set (hash_buckets ?t1 ! i) = fst ` set (?bs ! i)"
        by (cases "i = b1") simp_all
    qed
    have unl: "\<forall>c\<in>set (hash_buckets ?t'). a \<notin> fst ` set c"
      using destroy_unlinks [OF wf b mem _ fst1] by simp
    have chain: "chain_find (key n) (chain_del a (hash_buckets ?t1 ! ?b)) = None"
    proof (cases "b1 = ?b")
      case True
      with mem1 have m1: "(a1, n1) \<in> set (?bs ! ?b)" by simp
      have "chain_find (key n) (chain_del a (chain_store a1 ?m1 (?bs ! ?b))) = None"
        by (rule chain_find_del_store_none [OF dk mem m1 ne]) simp
      with True b show ?thesis by simp
    next
      case False
      with b show ?thesis by (simp add: chain_find_del_none [OF dk mem])
    qed
    have get: "hashtable_get ?t' (key n) = NULL"
      using len1 chain by (simp add: hashtable_get_def hashtable_lookup_value_def h)
    from nxt unl get get0 show ?thesis
      by (simp add: hashtable_count_get_def)
  qed
qed

text \<open>The iterator over the table of \<^verbatim>\<open>put("a", 0x1)\<close>, with the observer of S6
  registered: the second \<open>iter_next\<close> returns null and releases the pin, the third
  destroys the entry.\<close>

theorem iter_next_after_end_witness:
  "hashtable_iter_next (ht_a_observed 2) \<lparr>node = Some 1, bucket = 1\<rparr> =
     Some (None, \<lparr>node = Some 1, bucket = 1\<rparr>, ht_a_observed 1) \<and>
   wf_table (ht_a_observed 1) \<and> allocs (ht_a_observed 1) = [] \<and>
   node \<lparr>node = Some 1, bucket = 1\<rparr> = Some 1 \<and>
   unat (bucket \<lparr>node = Some 1, bucket = 1\<rparr>) < length (hash_buckets (ht_a_observed 1)) \<and>
   (1, node_a 1) \<in> set (hash_buckets (ht_a_observed 1) ! unat (bucket \<lparr>node = Some 1, bucket = 1\<rparr>)) \<and>
   refcount (node_a 1) = 1 \<and>
   hashtable_iter_next (ht_a_observed 1) \<lparr>node = Some 1, bucket = 1\<rparr> =
     Some (None, \<lparr>node = Some 1, bucket = 1\<rparr>,
       ht_observed\<lparr>count := 1, heap_top := 2,
         trace := [\<lparr>call_fn = 1, call_events = QB_MAP_NOTIFY_DELETED, call_key = ''a'',
                    call_old_value = 1, call_value = NULL, call_user_data = 0\<rparr>,
                   \<lparr>call_fn = 1, call_events = QB_MAP_NOTIFY_FREE, call_key = ''a'',
                    call_old_value = 1, call_value = NULL, call_user_data = 0\<rparr>]\<rparr>) \<and>
   hashtable_get (ht_a_observed 1) ''a'' = 1 \<and>
   hashtable_get
     (ht_observed\<lparr>count := 1, heap_top := 2,
         trace := [\<lparr>call_fn = 1, call_events = QB_MAP_NOTIFY_DELETED, call_key = ''a'',
                    call_old_value = 1, call_value = NULL, call_user_data = 0\<rparr>,
                   \<lparr>call_fn = 1, call_events = QB_MAP_NOTIFY_FREE, call_key = ''a'',
                    call_old_value = 1, call_value = NULL, call_user_data = 0\<rparr>]\<rparr>) ''a'' = NULL \<and>
   hashtable_count_get
     (ht_observed\<lparr>count := 1, heap_top := 2,
         trace := [\<lparr>call_fn = 1, call_events = QB_MAP_NOTIFY_DELETED, call_key = ''a'',
                    call_old_value = 1, call_value = NULL, call_user_data = 0\<rparr>,
                   \<lparr>call_fn = 1, call_events = QB_MAP_NOTIFY_FREE, call_key = ''a'',
                    call_old_value = 1, call_value = NULL, call_user_data = 0\<rparr>]\<rparr>) = 1"
proof -
  let ?hi = "\<lparr>node = Some 1, bucket = 1\<rparr>"
  let ?t' = "ht_observed\<lparr>count := 1, heap_top := 2,
         trace := [\<lparr>call_fn = 1, call_events = QB_MAP_NOTIFY_DELETED, call_key = ''a'',
                    call_old_value = 1, call_value = NULL, call_user_data = 0\<rparr>,
                   \<lparr>call_fn = 1, call_events = QB_MAP_NOTIFY_FREE, call_key = ''a'',
                    call_old_value = 1, call_value = NULL, call_user_data = 0\<rparr>]\<rparr>"
  have reach: "hashtable_iter_next (ht_a_observed 2) ?hi = Some (None, ?hi, ht_a_observed 1)"
    by code_simp
  have wf: "wf_table (ht_a_observed 1)" by code_simp
  have al: "allocs (ht_a_observed 1) = []" by code_simp
  have cur: "node ?hi = Some 1" by simp
  have b: "unat (bucket ?hi) < length (hash_buckets (ht_a_observed 1))" by code_simp
  have mem: "(1, node_a 1) \<in> set (hash_buckets (ht_a_observed 1) ! unat (bucket ?hi))"
    by code_simp
  have one: "refcount (node_a 1) = 1" by (simp add: node_a_def)
  have run: "hashtable_iter_next (ht_a_observed 1) ?hi = Some (None, ?hi, ?t')"
    by code_simp
  have kn: "key (node_a 1) = ''a''" "node_value (node_a 1) = 1" by (simp_all add: node_a_def)
  from iter_next_after_end [OF wf al cur b mem one] obtain res hi' t' where
    r: "hashtable_iter_next (ht_a_observed 1) ?hi = Some (res, hi', t')"
    and g: "hashtable_get t' (key (node_a 1)) = NULL"
    and c: "hashtable_count_get t' = hashtable_count_get (ht_a_observed 1)"
    and g0: "hashtable_get (ht_a_observed 1) (key (node_a 1)) = node_value (node_a 1)"
    by blast
  from r have t': "t' = ?t'" by (simp only: run option.inject prod.inject)
  have c0: "hashtable_count_get (ht_a_observed 1) = 1" by code_simp
  from g c g0 have "hashtable_get ?t' ''a'' = NULL" "hashtable_count_get ?t' = 1"
    "hashtable_get (ht_a_observed 1) ''a'' = 1"
    by (simp_all only: t' kn c0)
  with reach wf al cur b mem one run show ?thesis by (intro conjI)
qed

text \<open>
  C9. For every key \<open>k\<close> whose entry has a reference count greater than 1 (a pinned
  entry), \<open>rm(k)\<close> returns true and decrements the count of the table, but the entry stays
  linked in its chain with one reference less: a following \<open>get(k)\<close> still returns its
  value, and a second \<open>rm(k)\<close> returns true as well and decrements the count again.
\<close>

theorem rm_pinned:
  assumes wf: "wf_table t"
    and look: "hashtable_lookup t k = Some (a, n)"
    and pin: "1 < refcount n"
  shows "fst (hashtable_rm t k) = True \<and>
         hashtable_count_get (snd (hashtable_rm t k)) = hashtable_count_get t - 1 \<and>
         hashtable_lookup (snd (hashtable_rm t k)) k = Some (a, n\<lparr>refcount := refcount n - 1\<rparr>) \<and>
         hashtable_get (snd (hashtable_rm t k)) k = node_value n \<and>
         fst (hashtable_rm (snd (hashtable_rm t k)) k) = True \<and>
         hashtable_count_get (snd (hashtable_rm (snd (hashtable_rm t k)) k)) =
           hashtable_count_get t - 2"
proof -
  let ?b = "unat (qb_hash_string k (order t))"
  let ?c = "hash_buckets t ! ?b"
  let ?n' = "n\<lparr>refcount := refcount n - 1\<rparr>"
  let ?t1 = "(set_bucket ?b (chain_store a ?n' ?c) t)\<lparr>count := count t - 1\<rparr>"
  from wf have b: "?b < length (hash_buckets t)" by (rule hash_in_range)
  from look have find: "chain_find k ?c = Some (a, n)"
    by (simp add: hashtable_lookup_def)
  then have kn: "key n = k" by (simp add: chain_find_Some_mem)
  have rm1: "hashtable_rm t k = (True, ?t1)"
    using find pin by (simp add: rm_found deref_pinned)
  have find1: "chain_find k (hash_buckets ?t1 ! unat (qb_hash_string k (order ?t1))) = Some (a, ?n')"
    using b find kn by (simp add: chain_find_store)
  have look1: "hashtable_lookup ?t1 k = Some (a, ?n')"
    using find1 by (simp add: hashtable_lookup_def)
  have get1: "hashtable_get ?t1 k = node_value n"
    using find1 by (simp add: hashtable_get_def hashtable_lookup_value_def)
  have rm2: "fst (hashtable_rm ?t1 k) = True"
    by (simp add: rm_found [OF find1])
  have cnt2: "count (snd (hashtable_rm ?t1 k)) = count t - 2"
    by (simp add: rm_found [OF find1])
  show ?thesis
    using look1 get1 rm2 cnt2 by (simp add: rm1 hashtable_count_get_def)
qed

text \<open>The table of \<^verbatim>\<open>create(1); put("a", 0x1)\<close> after one \<^verbatim>\<open>iter_next\<close> of a
  fresh iterator, which pins the entry.\<close>

theorem rm_pinned_witness:
  "hashtable_iter_next (hashtable_put ht_empty ''a'' 1) \<lparr>node = None, bucket = 0\<rparr> =
     Some (Some (''a'', 1), \<lparr>node = Some 1, bucket = 1\<rparr>, ht_a 2) \<and>
   wf_table (ht_a 2) \<and> hashtable_lookup (ht_a 2) ''a'' = Some (1, node_a 2) \<and>
   1 < refcount (node_a 2) \<and>
   fst (hashtable_rm (ht_a 2) ''a'') = True \<and>
   hashtable_count_get (snd (hashtable_rm (ht_a 2) ''a'')) = 0 \<and>
   hashtable_lookup (snd (hashtable_rm (ht_a 2) ''a'')) ''a'' = Some (1, node_a 1) \<and>
   hashtable_get (snd (hashtable_rm (ht_a 2) ''a'')) ''a'' = 1 \<and>
   fst (hashtable_rm (snd (hashtable_rm (ht_a 2) ''a'')) ''a'') = True \<and>
   hashtable_count_get (snd (hashtable_rm (snd (hashtable_rm (ht_a 2) ''a'')) ''a'')) = - 1"
proof -
  have reach: "hashtable_iter_next (hashtable_put ht_empty ''a'' 1) \<lparr>node = None, bucket = 0\<rparr> =
      Some (Some (''a'', 1), \<lparr>node = Some 1, bucket = 1\<rparr>, ht_a 2)"
    by code_simp
  have wf: "wf_table (ht_a 2)" by code_simp
  have look: "hashtable_lookup (ht_a 2) ''a'' = Some (1, node_a 2)" by code_simp
  have pin: "1 < refcount (node_a 2)" by (simp add: node_a_def)
  have cnt: "hashtable_count_get (ht_a 2) = 1" by (simp add: hashtable_count_get_def ht_a_def)
  from rm_pinned [OF wf look pin] reach wf look pin cnt show ?thesis
    by (simp add: node_a_def)
qed

text \<open>
  C10. For a registration whose mask includes \<open>FREE\<close>, the duplicate check of
  \<open>notify_add\<close> compares the masks alone, for equality: the registration is rejected with
  \<open>-EEXIST\<close> as soon as a notifier of the list has the same mask, whatever its callback
  and user data; with no such notifier it is accepted (appended to the list, result 0),
  also when a notifier of the list has another mask that includes \<open>FREE\<close>.
\<close>

theorem notify_add_free_mask:
  assumes "ev AND QB_MAP_NOTIFY_FREE \<noteq> 0" and "notify_head t k = Some head"
  shows "((\<exists>f\<in>set (head_list t head). events f = ev) \<longrightarrow>
            hashtable_notify_add t k fn ev ud = (- EEXIST, t)) \<and>
         ((\<forall>f\<in>set (head_list t head). events f \<noteq> ev) \<longrightarrow> allocs t = [] \<longrightarrow>
            hashtable_notify_add t k fn ev ud =
              (0, head_store head
                    (head_list t head @ [\<lparr>events = ev, callback = fn, user_data = ud\<rparr>]) t))"
  using assms
  by (auto simp add: hashtable_notify_add_def notify_exists_free malloc_ok)

theorem notify_add_free_mask_witness:
  "(QB_MAP_NOTIFY_DELETED OR QB_MAP_NOTIFY_FREE) AND QB_MAP_NOTIFY_FREE \<noteq> 0 \<and>
   notify_head ht_observed None = Some Table_Head \<and>
   head_list ht_observed Table_Head = [obs_del_free] \<and>
   events obs_del_free = QB_MAP_NOTIFY_DELETED OR QB_MAP_NOTIFY_FREE \<and>
   hashtable_notify_add ht_observed None 2 (QB_MAP_NOTIFY_DELETED OR QB_MAP_NOTIFY_FREE) 5 =
     (- EEXIST, ht_observed) \<and>
   QB_MAP_NOTIFY_FREE AND QB_MAP_NOTIFY_FREE \<noteq> 0 \<and>
   events obs_del_free AND QB_MAP_NOTIFY_FREE \<noteq> 0 \<and>
   events obs_del_free \<noteq> QB_MAP_NOTIFY_FREE \<and>
   allocs ht_observed = [] \<and>
   hashtable_notify_add ht_observed None 2 QB_MAP_NOTIFY_FREE 5 =
     (0, ht_observed\<lparr>notifier_head :=
           [obs_del_free, \<lparr>events = QB_MAP_NOTIFY_FREE, callback = 2, user_data = 5\<rparr>]\<rparr>)"
proof -
  have m1: "(QB_MAP_NOTIFY_DELETED OR QB_MAP_NOTIFY_FREE) AND QB_MAP_NOTIFY_FREE \<noteq> 0"
    by (simp add: QB_MAP_NOTIFY_DELETED_def QB_MAP_NOTIFY_FREE_def)
  have m2: "QB_MAP_NOTIFY_FREE AND QB_MAP_NOTIFY_FREE \<noteq> 0"
    by (simp add: QB_MAP_NOTIFY_FREE_def)
  have hd: "notify_head ht_observed None = Some Table_Head"
    by (simp add: notify_head_def)
  have l: "head_list ht_observed Table_Head = [obs_del_free]"
    by (simp add: ht_observed_def)
  have e: "events obs_del_free = QB_MAP_NOTIFY_DELETED OR QB_MAP_NOTIFY_FREE"
    by (simp add: obs_del_free_def)
  have ne: "events obs_del_free \<noteq> QB_MAP_NOTIFY_FREE"
    by (simp add: obs_del_free_def QB_MAP_NOTIFY_DELETED_def QB_MAP_NOTIFY_FREE_def)
  have al: "allocs ht_observed = []"
    by (simp add: ht_observed_def ht_empty_def)
  from notify_add_free_mask [OF m1 hd, of 2 5] notify_add_free_mask [OF m2 hd, of 2 5]
    m1 m2 hd l e ne al
  show ?thesis by simp
qed

end
